theory Spec2Isabelle
  imports Main "HOL-Library.Sublist"
begin

section \<open>Paths (pathlib)\<close>

text \<open>
  A path is the list of its components, as \<^verbatim>\<open>Path.parts\<close> gives them; the anchor of an
  absolute path, when there is one, is the first component. The empty list is the path
  \<^verbatim>\<open>Path('.')\<close>, and it is the parent of every path of one component. Symbolic links,
  drives and case-insensitive file systems are not modelled.
  A string is the list of the bytes of its UTF-8 encoding. The byte of the dot stands for
  a dot only, so \<^verbatim>\<open>rfind\<close>, the slices at a dot, \<^verbatim>\<open>lstrip\<close> and \<^verbatim>\<open>startswith\<close> on bytes are the
  ones on characters.
\<close>

type_synonym path = "string list"

definition parent :: "path \<Rightarrow> path" where
  "parent p = butlast p"

definition name :: "path \<Rightarrow> string" where
  "name p = (if p = [] then [] else last p)"

text \<open>\<^verbatim>\<open>str.rfind\<close>: the index of the last occurrence of a character, or -1.\<close>

definition rfind :: "char \<Rightarrow> string \<Rightarrow> int" where
  "rfind c s =
     (if c \<in> set s
      then int (length s) - 1 - int (length (takeWhile (\<lambda>x. x \<noteq> c) (rev s)))
      else - 1)"

text \<open>
  \<^verbatim>\<open>PurePath.suffix\<close> and \<^verbatim>\<open>PurePath.stem\<close>: with \<^verbatim>\<open>i = name.rfind('.')\<close>, the suffix is
  \<^verbatim>\<open>name[i:]\<close> and the stem \<^verbatim>\<open>name[:i]\<close> when \<^verbatim>\<open>0 < i < len(name) - 1\<close>; otherwise the suffix
  is empty and the stem is the whole name.
\<close>

definition suffix_of :: "path \<Rightarrow> string" where
  "suffix_of p =
     (let n = name p; i = rfind (CHR ''.'') n
      in if 0 < i \<and> i < int (length n) - 1 then drop (nat i) n else [])"

definition stem :: "path \<Rightarrow> string" where
  "stem p =
     (let n = name p; i = rfind (CHR ''.'') n
      in if 0 < i \<and> i < int (length n) - 1 then take (nat i) n else n)"

text \<open>\<^verbatim>\<open>p.relative_to(target)\<close> raises \<^verbatim>\<open>ValueError\<close> when \<^verbatim>\<open>target\<close> is not a prefix of \<^verbatim>\<open>p\<close>.\<close>

definition relative_to :: "path \<Rightarrow> path \<Rightarrow> path option" where
  "relative_to p target =
     (if prefix target p then Some (drop (length target) p) else None)"

section \<open>Strings\<close>

text \<open>
  Lower-casing of the ASCII letters, byte by byte: what \<^verbatim>\<open>str.lower\<close> does on a string of
  ASCII characters.
\<close>

definition ascii_lower_char :: "char \<Rightarrow> char" where
  "ascii_lower_char c =
     (let n = (of_char c :: nat) in if 65 \<le> n \<and> n \<le> 90 then char_of (n + 32) else c)"

definition ascii_lower :: "string \<Rightarrow> string" where
  "ascii_lower s = map ascii_lower_char s"

definition lstrip :: "char \<Rightarrow> string \<Rightarrow> string" where
  "lstrip c s = dropWhile (\<lambda>x. x = c) s"

definition startswith :: "string \<Rightarrow> string \<Rightarrow> bool" where
  "startswith s p = (take (length p) s = p)"

text \<open>\<^verbatim>\<open>str(i)\<close> for a non-negative integer: its decimal digits.\<close>

definition digit_char :: "nat \<Rightarrow> char" where
  "digit_char d = char_of (48 + d)"

fun str_nat :: "nat \<Rightarrow> string" where
  "str_nat n = (if n < 10 then [digit_char n] else str_nat (n div 10) @ [digit_char (n mod 10)])"

declare str_nat.simps [simp del]

section \<open>Classifier\<close>

text \<open>The dictionary \<^verbatim>\<open>EXTENSION_CATEGORIES\<close>, in the order of the source.\<close>

definition EXTENSION_CATEGORIES :: "(string \<times> string) list" where
  "EXTENSION_CATEGORIES =
   [(''jpg'', ''Images''), (''jpeg'', ''Images''), (''png'', ''Images''), (''gif'', ''Images''),
    (''bmp'', ''Images''), (''webp'', ''Images''), (''tif'', ''Images''), (''tiff'', ''Images''),
    (''svg'', ''Images''), (''ico'', ''Images''),
    (''mp4'', ''Videos''), (''mkv'', ''Videos''), (''mov'', ''Videos''), (''avi'', ''Videos''),
    (''wmv'', ''Videos''), (''flv'', ''Videos''), (''webm'', ''Videos''),
    (''mp3'', ''Audio''), (''wav'', ''Audio''), (''flac'', ''Audio''), (''aac'', ''Audio''),
    (''ogg'', ''Audio''), (''m4a'', ''Audio''),
    (''pdf'', ''Documents''), (''doc'', ''Documents''), (''docx'', ''Documents''),
    (''xls'', ''Documents''), (''xlsx'', ''Documents''), (''ppt'', ''Documents''),
    (''pptx'', ''Documents''), (''txt'', ''Documents''), (''md'', ''Documents''),
    (''rtf'', ''Documents''), (''odt'', ''Documents''),
    (''zip'', ''Archives''), (''tar'', ''Archives''), (''gz'', ''Archives''), (''bz2'', ''Archives''),
    (''7z'', ''Archives''), (''rar'', ''Archives''),
    (''py'', ''Code''), (''js'', ''Code''), (''ts'', ''Code''), (''java'', ''Code''), (''c'', ''Code''),
    (''cpp'', ''Code''), (''cs'', ''Code''), (''go'', ''Code''), (''rb'', ''Code''), (''rs'', ''Code''),
    (''php'', ''Code''), (''html'', ''Code''), (''css'', ''Code''), (''json'', ''Code''), (''xml'', ''Code''),
    (''sh'', ''Code''), (''ps1'', ''Code'')]"

text \<open>
  Two functions of the Python library depend on tables of the host and are parameters of
  the model: \<^verbatim>\<open>str.lower\<close>, whose result follows the Unicode tables (it maps the Kelvin sign
  to \<^verbatim>\<open>k\<close>, for one), and \<^verbatim>\<open>mimetypes.guess_type(str(path))[0]\<close>, from a path to an optional
  type string. Every statement below holds for all such functions.
\<close>

record host =
  lower :: "string \<Rightarrow> string"
  guess :: "path \<Rightarrow> string option"

definition guess_category_by_mime :: "host \<Rightarrow> path \<Rightarrow> string" where
  "guess_category_by_mime host p =
     (case guess host p of
        None \<Rightarrow> ''Others''
      | Some mime \<Rightarrow>
          if mime = [] then ''Others''
          else if startswith mime ''image/'' then ''Images''
          else if startswith mime ''video/'' then ''Videos''
          else if startswith mime ''audio/'' then ''Audio''
          else if mime \<in> set [''application/zip'', ''application/x-tar''] then ''Archives''
          else if mime \<in> set [''application/pdf'', ''text/plain'', ''text/html'',
                                ''application/msword''] then ''Documents''
          else ''Others'')"

text \<open>The value of the local variable \<^verbatim>\<open>ext\<close> of \<^verbatim>\<open>get_category\<close> (lines 76 to 79).\<close>

definition extension :: "host \<Rightarrow> path \<Rightarrow> string" where
  "extension host p =
     (if suffix_of p \<noteq> [] then lstrip (CHR ''.'') (lower host (suffix_of p)) else [])"

text \<open>\<^verbatim>\<open>ext or "unknown"\<close>: Python's \<^verbatim>\<open>or\<close> on strings.\<close>

definition or_unknown :: "string \<Rightarrow> string" where
  "or_unknown ext = (if ext \<noteq> [] then ext else ''unknown'')"

text \<open>
  The branch taken when the table has no (truthy) entry for the extension
  (lines 86 to 90).
\<close>

definition by_mime_with_ext :: "host \<Rightarrow> path \<Rightarrow> string \<Rightarrow> string \<times> string" where
  "by_mime_with_ext host p ext =
     (let category_by_mime = guess_category_by_mime host p
      in if category_by_mime \<noteq> ''Others'' then (category_by_mime, or_unknown ext)
         else (''Others'', or_unknown ext))"

definition get_category :: "host \<Rightarrow> path \<Rightarrow> string \<times> string" where
  "get_category host p =
     (let ext = extension host p
      in if ext \<noteq> [] then
           (case map_of EXTENSION_CATEGORIES ext of
              Some category \<Rightarrow>
                if category \<noteq> [] then (category, ext) else by_mime_with_ext host p ext
            | None \<Rightarrow> by_mime_with_ext host p ext)
         else (guess_category_by_mime host p, ''no_ext''))"

section \<open>File system\<close>

text \<open>
  The file system is the list of its entries in listing order, each a path with its kind.
  \<^verbatim>\<open>Path.exists\<close> holds of directories as well as of regular files.
\<close>

datatype kind = File | Dir

type_synonym filesystem = "(path \<times> kind) list"

definition exists_path :: "filesystem \<Rightarrow> path \<Rightarrow> bool" where
  "exists_path fs p = (p \<in> set (map fst fs))"

definition is_dir :: "filesystem \<Rightarrow> path \<Rightarrow> bool" where
  "is_dir fs p = ((p, Dir) \<in> set fs)"

text \<open>
  Well-formed file systems: one entry for a path, and every entry but the anchor \<open>[]\<close>
  lies in a directory.
\<close>

definition wf_fs :: "filesystem \<Rightarrow> bool" where
  "wf_fs fs =
     (distinct (map fst fs) \<and> list_all (\<lambda>(p, k). p = [] \<or> is_dir fs (parent p)) fs)"

datatype error =
    ValueError
  | FileNotFoundError
  | NotADirectoryError
  | FileExistsError
  | IsADirectoryError
  | ShutilError
  | DirectorySourceNotModelled

text \<open>\<^verbatim>\<open>target.iterdir()\<close> and \<^verbatim>\<open>target.rglob('*')\<close>, in listing order.\<close>

definition iterdir :: "filesystem \<Rightarrow> path \<Rightarrow> path list" where
  "iterdir fs target = filter (\<lambda>p. p \<noteq> [] \<and> parent p = target) (map fst fs)"

definition rglob :: "filesystem \<Rightarrow> path \<Rightarrow> path list" where
  "rglob fs target = filter (\<lambda>p. strict_prefix target p) (map fst fs)"

text \<open>
  \<^verbatim>\<open>path / s\<close> for a string \<open>s\<close> that is one component (it holds no separator): an empty
  string adds nothing.
\<close>

definition joinpath :: "path \<Rightarrow> string \<Rightarrow> path" where
  "joinpath p s = (if s = [] then p else p @ [s])"

text \<open>\<^verbatim>\<open>os.mkdir\<close>: the parent is resolved first, then the path itself.\<close>

definition os_mkdir :: "filesystem \<Rightarrow> path \<Rightarrow> error + filesystem" where
  "os_mkdir fs p =
     (if \<not> exists_path fs (parent p) then Inl FileNotFoundError
      else if \<not> is_dir fs (parent p) then Inl NotADirectoryError
      else if exists_path fs p then Inl FileExistsError
      else Inr (fs @ [(p, Dir)]))"

text \<open>
  \<^verbatim>\<open>Path.mkdir(parents=False, exist_ok=True)\<close>: an error other than a missing parent is
  dropped when the path is a directory already. The result is the exception raised, if
  any, and the file system left behind.
\<close>

definition mkdir_single :: "filesystem \<Rightarrow> path \<Rightarrow> error option \<times> filesystem" where
  "mkdir_single fs p =
     (case os_mkdir fs p of
        Inr fs' \<Rightarrow> (None, fs')
      | Inl e \<Rightarrow>
          if e = FileNotFoundError then (Some e, fs)
          else if \<not> is_dir fs p then (Some e, fs)
          else (None, fs))"

text \<open>
  \<^verbatim>\<open>Path.mkdir(parents=True, exist_ok=True)\<close>: on a missing parent, the parents are made
  first and the directory after them.
\<close>

function mkdir_parents :: "filesystem \<Rightarrow> path \<Rightarrow> error option \<times> filesystem" where
  "mkdir_parents fs p =
     (case os_mkdir fs p of
        Inr fs' \<Rightarrow> (None, fs')
      | Inl e \<Rightarrow>
          if e = FileNotFoundError then
            (if parent p = p then (Some e, fs)
             else (case mkdir_parents fs (parent p) of
                     (Some e', fs') \<Rightarrow> (Some e', fs')
                   | (None, fs') \<Rightarrow> mkdir_single fs' p))
          else if \<not> is_dir fs p then (Some e, fs)
          else (None, fs))"
  by pat_completeness auto
termination
proof (relation "measure (\<lambda>(fs, p). length p)")
  fix fs :: filesystem and p :: path
  assume "parent p \<noteq> p"
  then have "p \<noteq> []" by (auto simp: parent_def)
  then show "((fs, parent p), (fs, p)) \<in> measure (\<lambda>(fs, p). length p)"
    by (simp add: parent_def)
qed simp

declare mkdir_parents.simps [simp del]

text \<open>
  \<^verbatim>\<open>os.rename\<close> of a regular file (POSIX): an existing regular file at the destination
  is replaced. Directories are skipped before any move (line 139), and the renaming of a
  directory is not modelled.
\<close>

definition os_rename :: "filesystem \<Rightarrow> path \<Rightarrow> path \<Rightarrow> error + filesystem" where
  "os_rename fs src dst =
     (if \<not> exists_path fs src then Inl FileNotFoundError
      else if is_dir fs src then Inl DirectorySourceNotModelled
      else if \<not> exists_path fs (parent dst) then Inl FileNotFoundError
      else if \<not> is_dir fs (parent dst) then Inl NotADirectoryError
      else if is_dir fs dst then Inl IsADirectoryError
      else if src = dst then Inr fs
      else Inr (filter (\<lambda>(q, k). q \<noteq> src \<and> q \<noteq> dst) fs @ [(dst, File)]))"

text \<open>
  \<^verbatim>\<open>shutil.move(src, dst)\<close>: a destination that is a directory receives the source under
  its own name, unless that name is taken there. When \<^verbatim>\<open>os.rename\<close> fails, the fallback
  (copy, then unlink) fails on the same missing or misplaced paths, and the error is
  raised.
\<close>

definition shutil_move :: "filesystem \<Rightarrow> path \<Rightarrow> path \<Rightarrow> error + filesystem" where
  "shutil_move fs src dst =
     (if is_dir fs dst then
        (if src = dst then os_rename fs src dst
         else let real_dst = joinpath dst (name src)
              in if exists_path fs real_dst then Inl ShutilError
                 else os_rename fs src real_dst)
      else os_rename fs src dst)"

section \<open>Conflict resolution\<close>

definition candidate :: "path \<Rightarrow> nat \<Rightarrow> path" where
  "candidate dest i =
     joinpath (parent dest) (stem dest @ '' ('' @ str_nat i @ '')'' @ suffix_of dest)"

text \<open>
  Distinct counters give distinct candidates, since decimal numerals are injective; so
  only finitely many candidates exist in a file system, and the search below ends.
\<close>

lemma str_nat_not_Nil: "str_nat n \<noteq> []"
  by (subst str_nat.simps) simp

lemma digit_char_inj: "a < 10 \<Longrightarrow> b < 10 \<Longrightarrow> digit_char a = digit_char b \<Longrightarrow> a = b"
  by (simp add: digit_char_def char_of_quasi_inj take_bit_eq_mod)

lemma str_nat_inj: "str_nat n = str_nat m \<Longrightarrow> n = m"
proof (induction n arbitrary: m rule: str_nat.induct)
  case (1 n)
  show ?case
  proof (cases "n < 10")
    case True
    then have n: "str_nat n = [digit_char n]" by (subst str_nat.simps) simp
    show ?thesis
    proof (cases "m < 10")
      case True
      then have "str_nat m = [digit_char m]" by (subst str_nat.simps) simp
      with n "1.prems" have "digit_char n = digit_char m" by simp
      with \<open>n < 10\<close> \<open>m < 10\<close> show ?thesis by (rule digit_char_inj)
    next
      case False
      then have "str_nat m = str_nat (m div 10) @ [digit_char (m mod 10)]"
        by (subst str_nat.simps) simp
      with n "1.prems" have "str_nat (m div 10) = []" by simp
      then show ?thesis by (simp add: str_nat_not_Nil)
    qed
  next
    case False
    then have n: "str_nat n = str_nat (n div 10) @ [digit_char (n mod 10)]"
      by (subst str_nat.simps) simp
    show ?thesis
    proof (cases "m < 10")
      case True
      then have "str_nat m = [digit_char m]" by (subst str_nat.simps) simp
      with n "1.prems" have "str_nat (n div 10) = []" by simp
      then show ?thesis by (simp add: str_nat_not_Nil)
    next
      case m: False
      then have "str_nat m = str_nat (m div 10) @ [digit_char (m mod 10)]"
        by (subst str_nat.simps) simp
      with n "1.prems" have a: "str_nat (n div 10) = str_nat (m div 10)"
        and b: "digit_char (n mod 10) = digit_char (m mod 10)" by simp_all
      from "1.IH" [OF False a] have "n div 10 = m div 10" .
      moreover from b have "n mod 10 = m mod 10" by (intro digit_char_inj) simp_all
      ultimately show ?thesis by (metis div_mult_mod_eq)
    qed
  qed
qed

lemma candidate_inj: "candidate dest i = candidate dest j \<Longrightarrow> i = j"
  by (auto simp: candidate_def joinpath_def dest: str_nat_inj)

lemma finite_candidates: "finite {j. exists_path fs (candidate dest j)}"
proof -
  have "inj (candidate dest)" by (rule injI) (rule candidate_inj)
  then have "finite (candidate dest -` set (map fst fs))" by (intro finite_vimageI) simp_all
  moreover have "{j. exists_path fs (candidate dest j)} = candidate dest -` set (map fst fs)"
    by (auto simp: exists_path_def)
  ultimately show ?thesis by simp
qed

text \<open>The loop of \<^verbatim>\<open>safe_destination\<close> (lines 107 to 112), from the counter \<open>i\<close> on.\<close>

function safe_destination_loop :: "filesystem \<Rightarrow> path \<Rightarrow> nat \<Rightarrow> path" where
  "safe_destination_loop fs dest i =
     (if \<not> exists_path fs (candidate dest i) then candidate dest i
      else safe_destination_loop fs dest (i + 1))"
  by pat_completeness auto
termination
proof (relation "measure (\<lambda>(fs, dest, i). card {j. i \<le> j \<and> exists_path fs (candidate dest j)})")
  show "wf (measure (\<lambda>(fs, dest, i). card {j. i \<le> j \<and> exists_path fs (candidate dest j)}))"
    by simp
next
  fix fs :: filesystem and dest :: path and i :: nat
  assume "\<not> \<not> exists_path fs (candidate dest i)"
  then have i: "exists_path fs (candidate dest i)" by simp
  let ?A = "{j. i + 1 \<le> j \<and> exists_path fs (candidate dest j)}"
  let ?B = "{j. i \<le> j \<and> exists_path fs (candidate dest j)}"
  have fin: "finite ?B"
    by (rule finite_subset [OF _ finite_candidates [of fs dest]]) auto
  have "?A \<subseteq> ?B" by auto
  moreover have "i \<in> ?B" using i by simp
  moreover have "i \<notin> ?A" by simp
  ultimately have "?A \<subset> ?B" by blast
  with fin have "card ?A < card ?B" by (rule psubset_card_mono)
  then show "((fs, dest, i + 1), (fs, dest, i))
      \<in> measure (\<lambda>(fs, dest, i). card {j. i \<le> j \<and> exists_path fs (candidate dest j)})"
    by simp
qed

declare safe_destination_loop.simps [simp del]

definition safe_destination :: "filesystem \<Rightarrow> path \<Rightarrow> bool \<Rightarrow> path" where
  "safe_destination fs dest overwrite =
     (if overwrite \<or> \<not> exists_path fs dest then dest else safe_destination_loop fs dest 1)"

section \<open>Relocator\<close>

text \<open>
  What a pass leaves behind: the file system, the lines it printed (as messages, in
  order), and the pairs of source and resolved destination that \<^verbatim>\<open>move_file\<close> computed at
  line 115, in order. The last is kept for the statements about decisions: the source
  prints a decision only when \<^verbatim>\<open>verbose or dry_run\<close>.
\<close>

datatype message =
    SkippingHidden path
  | SkippingCategory path
  | DryRunWouldMove path path
  | Moving path path
  | ErrorMoving path path error

record world =
  disk :: filesystem
  printed :: "message list"
  decided :: "(path \<times> path) list"

definition print_msg :: "message \<Rightarrow> world \<Rightarrow> world" where
  "print_msg m w = w\<lparr>printed := printed w @ [m]\<rparr>"

text \<open>
  \<^verbatim>\<open>move_file\<close>. The result is the exception that leaves the function, if any, and the
  world after it: \<^verbatim>\<open>mkdir\<close> stands before the \<^verbatim>\<open>try\<close>, so its error leaves the function,
  and an error of \<^verbatim>\<open>shutil.move\<close> is caught and printed.
\<close>

definition move_file ::
  "world \<Rightarrow> path \<Rightarrow> path \<Rightarrow> bool \<Rightarrow> bool \<Rightarrow> bool \<Rightarrow> error option \<times> world" where
  "move_file w src dest0 dry_run overwrite verbose =
     (let dest = safe_destination (disk w) dest0 overwrite;
          w1 = w\<lparr>decided := decided w @ [(src, dest)]\<rparr>;
          w2 = (if verbose \<or> dry_run
                then print_msg (if dry_run then DryRunWouldMove src dest else Moving src dest) w1
                else w1)
      in if dry_run then (None, w2)
         else (case mkdir_parents (disk w2) (parent dest) of
                 (Some e, fs') \<Rightarrow> (Some e, w2\<lparr>disk := fs'\<rparr>)
               | (None, fs') \<Rightarrow>
                   (case shutil_move fs' src dest of
                      Inr fs'' \<Rightarrow> (None, w2\<lparr>disk := fs''\<rparr>)
                    | Inl e \<Rightarrow> (None, print_msg (ErrorMoving src dest e) (w2\<lparr>disk := fs'\<rparr>)))))"

text \<open>The names line 157 compares the first component below the target with.\<close>

definition category_names :: "string set" where
  "category_names =
     set (map snd EXTENSION_CATEGORIES) \<union>
     set [''Documents'', ''Images'', ''Videos'', ''Audio'', ''Archives'', ''Code'', ''Others'']"

text \<open>The test of lines 148 to 157: true when the path is skipped as already organized.\<close>

definition already_organized :: "path \<Rightarrow> path \<Rightarrow> bool" where
  "already_organized target p =
     (if parent p = target then False
      else (case relative_to p target of
              None \<Rightarrow> False
            | Some rel \<Rightarrow> 2 \<le> length rel \<and> rel ! 0 \<in> category_names))"

definition hidden :: "path \<Rightarrow> bool" where
  "hidden p = list_ex (\<lambda>part. startswith part ''.'') p"

text \<open>
  The paths that the loop body passes over (the three \<^verbatim>\<open>continue\<close> of lines 139 to 161), in
  a given file system.
\<close>

definition skipped :: "filesystem \<Rightarrow> path \<Rightarrow> bool \<Rightarrow> path \<Rightarrow> bool" where
  "skipped fs target skip_hidden p =
     (is_dir fs p \<or> (skip_hidden \<and> hidden p) \<or> already_organized target p)"

text \<open>The destination built at lines 163 to 166: target, category, extension folder, name.\<close>

definition desired_destination :: "host \<Rightarrow> path \<Rightarrow> path \<Rightarrow> path" where
  "desired_destination host target p =
     (let (category, ext_folder) = get_category host p;
          dest_dir = joinpath (joinpath target category) ext_folder
      in joinpath dest_dir (name p))"

text \<open>The body of the loop of \<^verbatim>\<open>organize_directory\<close> (lines 138 to 167) for one path.\<close>

definition organize_step ::
  "host \<Rightarrow> path \<Rightarrow> bool \<Rightarrow> bool \<Rightarrow> bool \<Rightarrow> bool \<Rightarrow> world \<Rightarrow> path
     \<Rightarrow> error option \<times> world" where
  "organize_step host target dry_run overwrite verbose skip_hidden w p =
     (if is_dir (disk w) p then (None, w)
      else if skip_hidden \<and> hidden p then
        (None, if verbose then print_msg (SkippingHidden p) w else w)
      else if already_organized target p then
        (None, if verbose then print_msg (SkippingCategory p) w else w)
      else move_file w p (desired_destination host target p) dry_run overwrite verbose)"

text \<open>The loop: an exception that leaves the body ends the pass.\<close>

fun organize_loop ::
  "host \<Rightarrow> path \<Rightarrow> bool \<Rightarrow> bool \<Rightarrow> bool \<Rightarrow> bool \<Rightarrow> world \<Rightarrow> path list
     \<Rightarrow> error option \<times> world" where
  "organize_loop host target dry_run overwrite verbose skip_hidden w [] = (None, w)"
| "organize_loop host target dry_run overwrite verbose skip_hidden w (p # ps) =
     (case organize_step host target dry_run overwrite verbose skip_hidden w p of
        (Some e, w') \<Rightarrow> (Some e, w')
      | (None, w') \<Rightarrow> organize_loop host target dry_run overwrite verbose skip_hidden w' ps)"

text \<open>
  \<^verbatim>\<open>organize_directory\<close>. The iterator is the list of the entries below the target when the
  pass starts, in listing order. The iterator of \<^verbatim>\<open>rglob\<close> is lazy: in a live recursive pass
  it may also yield the folders and files that the pass has created by then. These lie
  in a category folder of the target, two levels or more below it, where the loop body
  only passes over them (lines 139, 142 and 157). So the lines \<^verbatim>\<open>Skipping ...\<close> that a
  verbose live recursive pass prints for its own products are not among \<open>printed\<close>; the
  file system and the decisions are not concerned.
\<close>

definition organize_directory ::
  "host \<Rightarrow> filesystem \<Rightarrow> path \<Rightarrow> bool \<Rightarrow> bool \<Rightarrow> bool \<Rightarrow> bool \<Rightarrow> bool
     \<Rightarrow> error option \<times> world" where
  "organize_directory host fs target recursive dry_run overwrite verbose skip_hidden =
     (let w = \<lparr>disk = fs, printed = [], decided = []\<rparr>
      in if \<not> exists_path fs target \<or> \<not> is_dir fs target then (Some ValueError, w)
         else organize_loop host target dry_run overwrite verbose skip_hidden w
                (if recursive then rglob fs target else iterdir fs target))"

text \<open>Oracles and file systems for the concrete instances below.\<close>

definition no_type :: "path \<Rightarrow> string option" where
  "no_type p = None"

definition video_type :: "path \<Rightarrow> string option" where
  "video_type p = Some ''video/mp4''"

definition plain_type :: "path \<Rightarrow> string option" where
  "plain_type p = Some ''text/plain''"

definition image_type :: "path \<Rightarrow> string option" where
  "image_type p = Some ''image/x-custom''"

definition host_none :: host where
  "host_none = \<lparr>lower = ascii_lower, guess = no_type\<rparr>"

definition host_video :: host where
  "host_video = \<lparr>lower = ascii_lower, guess = video_type\<rparr>"

definition host_plain :: host where
  "host_plain = \<lparr>lower = ascii_lower, guess = plain_type\<rparr>"

definition host_image :: host where
  "host_image = \<lparr>lower = ascii_lower, guess = image_type\<rparr>"

text \<open>
  A host whose lower-casing knows, beside the ASCII letters, the Kelvin sign (U+212A, in
  UTF-8 the bytes E2 84 AA), which \<^verbatim>\<open>str.lower\<close> maps to \<^verbatim>\<open>k\<close>.
\<close>

function kelvin_lower :: "string \<Rightarrow> string" where
  "kelvin_lower [] = []"
| "kelvin_lower (c # cs) =
     (if c = CHR 0xE2 \<and> take 2 cs = [CHR 0x84, CHR 0xAA] then CHR ''k'' # kelvin_lower (drop 2 cs)
      else ascii_lower_char c # kelvin_lower cs)"
  by pat_completeness auto
termination
  by (relation "measure length") auto

definition host_kelvin :: host where
  "host_kelvin = \<lparr>lower = kelvin_lower, guess = no_type\<rparr>"

definition fs_taken :: filesystem where
  "fs_taken =
     [([], Dir), ([''r''], Dir), ([''r'', ''Documents''], Dir),
      ([''r'', ''Documents'', ''txt''], Dir),
      ([''r'', ''Documents'', ''txt'', ''x.txt''], File),
      ([''r'', ''Documents'', ''txt'', ''x (1).txt''], File),
      ([''r'', ''x.txt''], File)]"

definition fs_two_dirs :: filesystem where
  "fs_two_dirs =
     [([], Dir), ([''r''], Dir), ([''r'', ''a''], Dir), ([''r'', ''b''], Dir),
      ([''r'', ''a'', ''x.txt''], File), ([''r'', ''b'', ''x.txt''], File)]"

definition fs_others :: filesystem where
  "fs_others =
     [([], Dir), ([''r''], Dir), ([''r'', ''Others''], File), ([''r'', ''a.jpg''], File)]"

definition fs_hidden :: filesystem where
  "fs_hidden =
     [([], Dir), ([''r''], Dir), ([''r'', ''.hidden.txt''], File), ([''r'', ''a.jpg''], File)]"

definition fs_organized :: filesystem where
  "fs_organized =
     [([], Dir), ([''r''], Dir), ([''r'', ''photo.jpg''], File), ([''r'', ''Images''], Dir),
      ([''r'', ''Images'', ''jpg''], Dir), ([''r'', ''Images'', ''jpg'', ''photo.jpg''], File)]"

definition fs_hidden_root :: filesystem where
  "fs_hidden_root =
     [([], Dir), ([''.cache''], Dir), ([''.cache'', ''a.jpg''], File)]"

definition fs_dir_at_dest :: filesystem where
  "fs_dir_at_dest =
     [([], Dir), ([''r''], Dir), ([''r'', ''a.jpg''], File), ([''r'', ''b.png''], File),
      ([''r'', ''Images''], Dir), ([''r'', ''Images'', ''jpg''], Dir),
      ([''r'', ''Images'', ''jpg'', ''a.jpg''], Dir),
      ([''r'', ''Images'', ''jpg'', ''a.jpg'', ''a.jpg''], File)]"

section \<open>Properties of the classifier\<close>

lemma takeWhile_rev_last: "c \<notin> set e \<Longrightarrow> takeWhile (\<lambda>x. x \<noteq> c) (rev e @ c # r) = rev e"
  by (subst takeWhile_append2) auto

lemma rfind_last: "c \<notin> set e \<Longrightarrow> rfind c (s @ c # e) = int (length s)"
  by (simp add: rfind_def takeWhile_rev_last)

lemma rfind_absent: "c \<notin> set s \<Longrightarrow> rfind c s = - 1"
  by (simp add: rfind_def)

lemma suffix_of_split:
  assumes "name p = s @ CHR ''.'' # e" and "CHR ''.'' \<notin> set e"
  shows "suffix_of p = (if s \<noteq> [] \<and> e \<noteq> [] then CHR ''.'' # e else [])"
  using assms by (auto simp: suffix_of_def Let_def rfind_last)

lemma stem_split:
  assumes "name p = s @ CHR ''.'' # e" and "CHR ''.'' \<notin> set e"
  shows "stem p = (if s \<noteq> [] \<and> e \<noteq> [] then s else name p)"
  using assms by (auto simp: stem_def Let_def rfind_last)

lemma suffix_of_no_dot: "CHR ''.'' \<notin> set (name p) \<Longrightarrow> suffix_of p = []"
  by (simp add: suffix_of_def Let_def rfind_absent)

lemma suffix_of_nonemptyD:
  assumes "suffix_of p \<noteq> []"
  obtains s e where "name p = s @ CHR ''.'' # e" "s \<noteq> []" "e \<noteq> []" "CHR ''.'' \<notin> set e"
    "suffix_of p = CHR ''.'' # e"
proof -
  from assms have "CHR ''.'' \<in> set (name p)" using suffix_of_no_dot by blast
  then obtain s e where n: "name p = s @ CHR ''.'' # e" "CHR ''.'' \<notin> set e"
    by (auto dest: split_list_last)
  with assms suffix_of_split [OF n] have "s \<noteq> []" "e \<noteq> []" "suffix_of p = CHR ''.'' # e"
    by (auto split: if_splits)
  with n that show ?thesis by blast
qed

lemma extension_split:
  assumes "name p = s @ CHR ''.'' # e" and "CHR ''.'' \<notin> set e"
  shows "extension host p =
    (if s \<noteq> [] \<and> e \<noteq> [] \<and> lower host (CHR ''.'' # e) \<noteq> []
     then lstrip (CHR ''.'') (lower host (CHR ''.'' # e)) else [])"
  using suffix_of_split [OF assms] by (auto simp: extension_def lstrip_def)

lemma extension_nonemptyD:
  assumes "extension host p \<noteq> []"
  shows "\<exists>s e. name p = s @ CHR ''.'' # e \<and> s \<noteq> [] \<and> e \<noteq> [] \<and> CHR ''.'' \<notin> set e \<and>
           extension host p = lstrip (CHR ''.'') (lower host (CHR ''.'' # e))"
proof -
  from assms have "suffix_of p \<noteq> []" by (auto simp: extension_def split: if_splits)
  then obtain s e where *: "name p = s @ CHR ''.'' # e" "s \<noteq> []" "e \<noteq> []" "CHR ''.'' \<notin> set e"
    "suffix_of p = CHR ''.'' # e"
    by (rule suffix_of_nonemptyD)
  then have "extension host p = lstrip (CHR ''.'') (lower host (CHR ''.'' # e))"
    by (simp add: extension_def)
  with * show ?thesis by blast
qed

lemma lstrip_dot_kept:
  assumes "lower host (CHR ''.'' # e) = CHR ''.'' # lower host e"
    and "CHR ''.'' \<notin> set (lower host e)"
  shows "lstrip (CHR ''.'') (lower host (CHR ''.'' # e)) = lower host e"
  using assms by (cases "lower host e") (auto simp: lstrip_def)

lemma table_keys_values: "map_of EXTENSION_CATEGORIES e = Some c \<Longrightarrow> e \<noteq> [] \<and> c \<noteq> []"
  by (auto simp: EXTENSION_CATEGORIES_def split: if_splits)


lemma extension_leading_dot:
  assumes "name p = CHR ''.'' # r" and "CHR ''.'' \<notin> set r"
  shows "extension host p = []"
  using extension_split [of p "[]" r host] assms by simp

lemma extension_no_dot: "CHR ''.'' \<notin> set (name p) \<Longrightarrow> extension host p = []"
  by (simp add: extension_def suffix_of_no_dot)

lemma startswith_not_Nil: "startswith m (c # cs) \<Longrightarrow> m \<noteq> []"
  by (auto simp: startswith_def)

lemma startswith_same_length:
  "startswith m a \<Longrightarrow> startswith m b \<Longrightarrow> length a = length b \<Longrightarrow> a = b"
  by (simp add: startswith_def)

lemma by_mime_image:
  assumes "guess host p = Some m" and "startswith m ''image/''"
  shows "guess_category_by_mime host p = ''Images''"
proof -
  from assms(2) have "m \<noteq> []" by (rule startswith_not_Nil)
  with assms show ?thesis by (simp add: guess_category_by_mime_def)
qed

lemma by_mime_video:
  assumes "guess host p = Some m" and "startswith m ''video/''"
  shows "guess_category_by_mime host p = ''Videos''"
proof -
  from assms(2) have "m \<noteq> []" by (rule startswith_not_Nil)
  moreover have "\<not> startswith m ''image/''"
    using startswith_same_length [OF assms(2), of "''image/''"] by auto
  ultimately show ?thesis using assms by (simp add: guess_category_by_mime_def)
qed

lemma by_mime_audio:
  assumes "guess host p = Some m" and "startswith m ''audio/''"
  shows "guess_category_by_mime host p = ''Audio''"
proof -
  from assms(2) have "m \<noteq> []" by (rule startswith_not_Nil)
  moreover have "\<not> startswith m ''image/''"
    using startswith_same_length [OF assms(2), of "''image/''"] by auto
  moreover have "\<not> startswith m ''video/''"
    using startswith_same_length [OF assms(2), of "''video/''"] by auto
  ultimately show ?thesis using assms by (simp add: guess_category_by_mime_def)
qed

lemma by_mime_archive:
  assumes "guess host p = Some m" and "m = ''application/zip'' \<or> m = ''application/x-tar''"
  shows "guess_category_by_mime host p = ''Archives''"
  using assms(2)
proof
  assume "m = ''application/zip''"
  with assms(1) show ?thesis by (simp add: guess_category_by_mime_def startswith_def)
next
  assume "m = ''application/x-tar''"
  with assms(1) show ?thesis by (simp add: guess_category_by_mime_def startswith_def)
qed

lemma by_mime_document:
  assumes "guess host p = Some m"
    and "m = ''application/pdf'' \<or> m = ''text/plain'' \<or> m = ''text/html'' \<or>
         m = ''application/msword''"
  shows "guess_category_by_mime host p = ''Documents''"
proof -
  consider "m = ''application/pdf''" | "m = ''text/plain''" | "m = ''text/html''"
    | "m = ''application/msword''" using assms(2) by blast
  then show ?thesis
  proof cases
    case 1 with assms(1) show ?thesis by (simp add: guess_category_by_mime_def startswith_def)
  next
    case 2 with assms(1) show ?thesis by (simp add: guess_category_by_mime_def startswith_def)
  next
    case 3 with assms(1) show ?thesis by (simp add: guess_category_by_mime_def startswith_def)
  next
    case 4 with assms(1) show ?thesis by (simp add: guess_category_by_mime_def startswith_def)
  qed
qed

lemma by_mime_other:
  assumes "guess host p = Some m"
    and "\<not> startswith m ''image/''" "\<not> startswith m ''video/''" "\<not> startswith m ''audio/''"
    and "m \<noteq> ''application/zip''" "m \<noteq> ''application/x-tar''"
    and "m \<noteq> ''application/pdf''" "m \<noteq> ''text/plain''" "m \<noteq> ''text/html''"
        "m \<noteq> ''application/msword''"
  shows "guess_category_by_mime host p = ''Others''"
  using assms by (simp add: guess_category_by_mime_def)

text \<open>
  Claim C3. For every file name whose extension is a key of the extension table,
  \<open>get_category\<close> returns the category of that entry with the lower-cased extension as
  sub-folder, whatever the content type inferred for the name, and for every
  \<^verbatim>\<open>str.lower\<close> of the host. The extension is the one the source computes: the name ends in
  a dot that is not its first character and a part \<open>e\<close> without a dot, and the extension is
  the lower-cased suffix \<^verbatim>\<open>.e\<close> without its leading dots; that is the lower-cased \<open>e\<close>
  whenever lower-casing keeps the dot in front and brings no dot into \<open>e\<close>.
\<close>

theorem get_category_table_hit:
  assumes "map_of EXTENSION_CATEGORIES (extension host p) = Some category"
  shows "get_category host p = (category, extension host p) \<and>
    (\<exists>s e. name p = s @ CHR ''.'' # e \<and> s \<noteq> [] \<and> e \<noteq> [] \<and> CHR ''.'' \<notin> set e \<and>
       extension host p = lstrip (CHR ''.'') (lower host (CHR ''.'' # e)) \<and>
       (lower host (CHR ''.'' # e) = CHR ''.'' # lower host e \<and> CHR ''.'' \<notin> set (lower host e)
          \<longrightarrow> extension host p = lower host e))"
proof -
  from table_keys_values [OF assms] have ne: "extension host p \<noteq> []" "category \<noteq> []"
    by simp_all
  with assms have 1: "get_category host p = (category, extension host p)"
    by (simp add: get_category_def Let_def)
  from extension_nonemptyD [OF ne(1)] obtain s e where
    *: "name p = s @ CHR ''.'' # e" "s \<noteq> []" "e \<noteq> []" "CHR ''.'' \<notin> set e"
       "extension host p = lstrip (CHR ''.'') (lower host (CHR ''.'' # e))"
    by blast
  have "lower host (CHR ''.'' # e) = CHR ''.'' # lower host e \<and> CHR ''.'' \<notin> set (lower host e)
          \<longrightarrow> extension host p = lower host e"
  proof
    assume "lower host (CHR ''.'' # e) = CHR ''.'' # lower host e \<and> CHR ''.'' \<notin> set (lower host e)"
    then have "lstrip (CHR ''.'') (lower host (CHR ''.'' # e)) = lower host e"
      by (intro lstrip_dot_kept) simp_all
    with *(5) show "extension host p = lower host e" by simp
  qed
  with * 1 show ?thesis by blast
qed

text \<open>
  Two instances. \<^verbatim>\<open>PHOTO.JPG\<close> is classified as \<^verbatim>\<open>Images/jpg\<close> on a host that infers a video.
  The name \<^verbatim>\<open>clip.MKV\<close> written with the Kelvin sign for its \<^verbatim>\<open>K\<close> is classified as \<^verbatim>\<open>Videos/mkv\<close>
  on a host whose lower-casing maps that sign to \<^verbatim>\<open>k\<close>.
\<close>

theorem get_category_table_hit_witness:
  "map_of EXTENSION_CATEGORIES (extension host_video [''root'', ''PHOTO.JPG'']) = Some ''Images'' \<and>
   guess_category_by_mime host_video [''root'', ''PHOTO.JPG''] = ''Videos'' \<and>
   get_category host_video [''root'', ''PHOTO.JPG''] = (''Images'', ''jpg'') \<and>
   map_of EXTENSION_CATEGORIES
     (extension host_kelvin [''root'', ''clip.M'' @ [CHR 0xE2, CHR 0x84, CHR 0xAA] @ ''V''])
       = Some ''Videos'' \<and>
   get_category host_kelvin [''root'', ''clip.M'' @ [CHR 0xE2, CHR 0x84, CHR 0xAA] @ ''V'']
       = (''Videos'', ''mkv'')"
proof -
  let ?k = "[''root'', ''clip.M'' @ [CHR 0xE2, CHR 0x84, CHR 0xAA] @ ''V'']"
  have h: "map_of EXTENSION_CATEGORIES (extension host_video [''root'', ''PHOTO.JPG'']) = Some ''Images''"
    by code_simp
  have e: "extension host_video [''root'', ''PHOTO.JPG''] = ''jpg''" by code_simp
  have v: "guess_category_by_mime host_video [''root'', ''PHOTO.JPG''] = ''Videos''" by code_simp
  have hk: "map_of EXTENSION_CATEGORIES (extension host_kelvin ?k) = Some ''Videos''" by code_simp
  have ek: "extension host_kelvin ?k = ''mkv''" by code_simp
  from get_category_table_hit [OF h]
  have 1: "get_category host_video [''root'', ''PHOTO.JPG'']
          = (''Images'', extension host_video [''root'', ''PHOTO.JPG''])" by blast
  from get_category_table_hit [OF hk]
  have 2: "get_category host_kelvin ?k = (''Videos'', extension host_kelvin ?k)" by blast
  from 1 2 h e v hk ek show ?thesis by simp
qed

text \<open>
  Claim C4, as stated, fails: for \<^verbatim>\<open>b.unknownext\<close>, whose extension the table does not hold
  and for which the oracle gives no type, the sub-folder is \<^verbatim>\<open>unknownext\<close>, not the marker
  \<^verbatim>\<open>unknown\<close>.
\<close>

theorem get_category_unknown_counterexample:
  "extension host_none [''root'', ''b.unknownext''] = ''unknownext'' \<and>
   map_of EXTENSION_CATEGORIES (extension host_none [''root'', ''b.unknownext'']) = None \<and>
   guess_category_by_mime host_none [''root'', ''b.unknownext''] = ''Others'' \<and>
   get_category host_none [''root'', ''b.unknownext''] = (''Others'', ''unknownext'') \<and>
   snd (get_category host_none [''root'', ''b.unknownext'']) \<noteq> ''unknown''"
  by code_simp

text \<open>
  Claim C4, amended. For every path with an extension that is not a key of the table and
  whose content-type inference gives \<^verbatim>\<open>Others\<close>, \<open>get_category\<close> returns the category
  \<^verbatim>\<open>Others\<close> with the lower-cased extension itself as sub-folder: the extension is not
  empty there, so \<^verbatim>\<open>ext or "unknown"\<close> is the extension.
\<close>

theorem get_category_fall_through:
  assumes "extension host p \<noteq> []"
    and "map_of EXTENSION_CATEGORIES (extension host p) = None"
    and "guess_category_by_mime host p = ''Others''"
  shows "get_category host p = (''Others'', extension host p)"
  using assms by (simp add: get_category_def Let_def by_mime_with_ext_def or_unknown_def)

text \<open>An instance of the amended claim, at \<^verbatim>\<open>b.unknownext\<close> with no type.\<close>

theorem get_category_fall_through_witness:
  "extension host_none [''root'', ''b.unknownext''] \<noteq> [] \<and>
   map_of EXTENSION_CATEGORIES (extension host_none [''root'', ''b.unknownext'']) = None \<and>
   guess_category_by_mime host_none [''root'', ''b.unknownext''] = ''Others'' \<and>
   get_category host_none [''root'', ''b.unknownext''] = (''Others'', ''unknownext'')"
proof -
  have a: "extension host_none [''root'', ''b.unknownext''] \<noteq> []" by code_simp
  have b: "map_of EXTENSION_CATEGORIES (extension host_none [''root'', ''b.unknownext'']) = None"
    by code_simp
  have c: "guess_category_by_mime host_none [''root'', ''b.unknownext''] = ''Others''"
    by code_simp
  have e: "extension host_none [''root'', ''b.unknownext''] = ''unknownext''" by code_simp
  from get_category_fall_through [OF a b c] e a b c show ?thesis by simp
qed

text \<open>
  Claim C5. For every path whose name has no dot, or only a leading one, \<open>get_category\<close>
  returns the sub-folder \<^verbatim>\<open>no_ext\<close> with the category of the content-type inference; and the
  inference maps no type to \<^verbatim>\<open>Others\<close>, a type beginning \<^verbatim>\<open>image/\<close> to \<^verbatim>\<open>Images\<close>, \<^verbatim>\<open>video/\<close> to
  \<^verbatim>\<open>Videos\<close>, \<^verbatim>\<open>audio/\<close> to \<^verbatim>\<open>Audio\<close>, the two archive types to \<^verbatim>\<open>Archives\<close>, the four document
  and text types to \<^verbatim>\<open>Documents\<close>, and every other type to \<^verbatim>\<open>Others\<close>.
\<close>

theorem get_category_no_extension:
  assumes "CHR ''.'' \<notin> set (name p) \<or> (\<exists>r. name p = CHR ''.'' # r \<and> CHR ''.'' \<notin> set r)"
  shows "get_category host p = (guess_category_by_mime host p, ''no_ext'') \<and>
    (guess host p = None \<longrightarrow> guess_category_by_mime host p = ''Others'') \<and>
    (\<forall>m. guess host p = Some m \<longrightarrow>
       (startswith m ''image/'' \<longrightarrow> guess_category_by_mime host p = ''Images'') \<and>
       (startswith m ''video/'' \<longrightarrow> guess_category_by_mime host p = ''Videos'') \<and>
       (startswith m ''audio/'' \<longrightarrow> guess_category_by_mime host p = ''Audio'') \<and>
       (m = ''application/zip'' \<or> m = ''application/x-tar'' \<longrightarrow>
          guess_category_by_mime host p = ''Archives'') \<and>
       (m = ''application/pdf'' \<or> m = ''text/plain'' \<or> m = ''text/html'' \<or>
        m = ''application/msword'' \<longrightarrow>
          guess_category_by_mime host p = ''Documents'') \<and>
       (\<not> startswith m ''image/'' \<and> \<not> startswith m ''video/'' \<and> \<not> startswith m ''audio/'' \<and>
        m \<noteq> ''application/zip'' \<and> m \<noteq> ''application/x-tar'' \<and>
        m \<noteq> ''application/pdf'' \<and> m \<noteq> ''text/plain'' \<and> m \<noteq> ''text/html'' \<and>
        m \<noteq> ''application/msword'' \<longrightarrow>
          guess_category_by_mime host p = ''Others''))"
proof -
  from assms have "extension host p = []"
    by (auto intro: extension_no_dot extension_leading_dot)
  then have 1: "get_category host p = (guess_category_by_mime host p, ''no_ext'')"
    by (simp add: get_category_def Let_def)
  have 2: "guess host p = None \<longrightarrow> guess_category_by_mime host p = ''Others''"
    by (simp add: guess_category_by_mime_def)
  from 1 2 show ?thesis
    by (intro conjI allI impI)
      (assumption | erule (1) by_mime_image by_mime_video by_mime_audio by_mime_archive
         by_mime_document | (elim conjE, erule by_mime_other, assumption+) | simp)+
qed

text \<open>An instance: \<^verbatim>\<open>notes\<close>, guessed as plain text, goes to \<^verbatim>\<open>Documents/no_ext\<close>.\<close>

theorem get_category_no_extension_witness:
  "CHR ''.'' \<notin> set (name [''root'', ''notes'']) \<and>
   guess host_plain [''root'', ''notes''] = Some ''text/plain'' \<and>
   get_category host_plain [''root'', ''notes''] = (''Documents'', ''no_ext'')"
proof -
  have a: "CHR ''.'' \<notin> set (name [''root'', ''notes''])" by code_simp
  have g: "guess host_plain [''root'', ''notes''] = Some ''text/plain''"
    by (simp add: host_plain_def plain_type_def)
  from a have h: "CHR ''.'' \<notin> set (name [''root'', ''notes'']) \<or>
      (\<exists>r. name [''root'', ''notes''] = CHR ''.'' # r \<and> CHR ''.'' \<notin> set r)" by blast
  note t = get_category_no_extension [OF h, of host_plain]
  from t g have "get_category host_plain [''root'', ''notes'']
      = (guess_category_by_mime host_plain [''root'', ''notes''], ''no_ext'')"
    and "guess_category_by_mime host_plain [''root'', ''notes''] = ''Documents''"
    by auto
  with a g show ?thesis by simp
qed

section \<open>Properties of the conflict resolution\<close>

lemma candidate_form:
  "candidate dest i = parent dest @ [stem dest @ '' ('' @ str_nat i @ '')'' @ suffix_of dest]"
  by (simp add: candidate_def joinpath_def)

lemma safe_destination_loop_first:
  "\<exists>k\<ge>i. safe_destination_loop fs dest i = candidate dest k \<and>
     \<not> exists_path fs (candidate dest k) \<and>
     (\<forall>j. i \<le> j \<and> j < k \<longrightarrow> exists_path fs (candidate dest j))"
proof (induction fs dest i rule: safe_destination_loop.induct)
  case (1 fs dest i)
  show ?case
  proof (cases "exists_path fs (candidate dest i)")
    case False
    then have "safe_destination_loop fs dest i = candidate dest i"
      by (subst safe_destination_loop.simps) simp
    with False show ?thesis by (intro exI [of _ i]) auto
  next
    case True
    then have eq: "safe_destination_loop fs dest i = safe_destination_loop fs dest (i + 1)"
      by (subst safe_destination_loop.simps) simp
    from "1.IH" True obtain k where k: "i + 1 \<le> k"
      "safe_destination_loop fs dest (i + 1) = candidate dest k"
      "\<not> exists_path fs (candidate dest k)"
      "\<forall>j. i + 1 \<le> j \<and> j < k \<longrightarrow> exists_path fs (candidate dest j)"
      by auto
    have "\<forall>j. i \<le> j \<and> j < k \<longrightarrow> exists_path fs (candidate dest j)"
    proof (intro allI impI)
      fix j assume j: "i \<le> j \<and> j < k"
      show "exists_path fs (candidate dest j)"
      proof (cases "j = i")
        case True with \<open>exists_path fs (candidate dest i)\<close> show ?thesis by simp
      next
        case False with j k(4) show ?thesis by simp
      qed
    qed
    with k eq show ?thesis by (intro exI [of _ k]) simp
  qed
qed

text \<open>
  Claim C1. If \<open>overwrite\<close> holds or nothing exists at the desired path, \<open>safe_destination\<close>
  returns the desired path; otherwise it returns the first of the candidates
  \<^verbatim>\<open>stem (i)suffix\<close>, \<open>i = 1, 2, \<dots>\<close>, beside the desired path that does not exist; and
  without \<open>overwrite\<close> the path returned does not exist. The function is total: the search
  ends in every file system. (Existence is \<^verbatim>\<open>Path.exists\<close>, which holds of a directory as
  of a regular file.)
\<close>

theorem safe_destination_correct:
  "(overwrite \<or> \<not> exists_path fs dest \<longrightarrow> safe_destination fs dest overwrite = dest) \<and>
   (\<not> overwrite \<and> exists_path fs dest \<longrightarrow>
      (\<exists>i\<ge>1. safe_destination fs dest overwrite
                 = parent dest @ [stem dest @ '' ('' @ str_nat i @ '')'' @ suffix_of dest] \<and>
              safe_destination fs dest overwrite = candidate dest i \<and>
              \<not> exists_path fs (candidate dest i) \<and>
              (\<forall>j. 1 \<le> j \<and> j < i \<longrightarrow> exists_path fs (candidate dest j)))) \<and>
   (\<not> overwrite \<longrightarrow> \<not> exists_path fs (safe_destination fs dest overwrite))"
proof (intro conjI impI)
  assume "overwrite \<or> \<not> exists_path fs dest"
  then show "safe_destination fs dest overwrite = dest" by (auto simp: safe_destination_def)
next
  assume a: "\<not> overwrite \<and> exists_path fs dest"
  then have "safe_destination fs dest overwrite = safe_destination_loop fs dest 1"
    by (simp add: safe_destination_def)
  with safe_destination_loop_first [of 1 fs dest]
  obtain k where k: "1 \<le> k" "safe_destination fs dest overwrite = candidate dest k"
    "\<not> exists_path fs (candidate dest k)"
    "\<forall>j. 1 \<le> j \<and> j < k \<longrightarrow> exists_path fs (candidate dest j)"
    by auto
  from k(2) have "safe_destination fs dest overwrite
      = parent dest @ [stem dest @ '' ('' @ str_nat k @ '')'' @ suffix_of dest]"
    by (simp only: candidate_form)
  with k
  show "\<exists>i\<ge>1. safe_destination fs dest overwrite
                 = parent dest @ [stem dest @ '' ('' @ str_nat i @ '')'' @ suffix_of dest] \<and>
              safe_destination fs dest overwrite = candidate dest i \<and>
              \<not> exists_path fs (candidate dest i) \<and>
              (\<forall>j. 1 \<le> j \<and> j < i \<longrightarrow> exists_path fs (candidate dest j))"
    by (intro exI [of _ k]) blast
next
  assume "\<not> overwrite"
  show "\<not> exists_path fs (safe_destination fs dest overwrite)"
  proof (cases "exists_path fs dest")
    case False
    then show ?thesis by (simp add: safe_destination_def)
  next
    case True
    with \<open>\<not> overwrite\<close> have "safe_destination fs dest overwrite = safe_destination_loop fs dest 1"
      by (simp add: safe_destination_def)
    with safe_destination_loop_first [of 1 fs dest] show ?thesis by auto
  qed
qed

text \<open>
  An instance: with \<^verbatim>\<open>x.txt\<close> and \<^verbatim>\<open>x (1).txt\<close> taken, the answer is \<^verbatim>\<open>x (2).txt\<close>, which does
  not exist; with \<open>overwrite\<close>, the desired path itself.
\<close>

theorem safe_destination_correct_witness:
  "exists_path fs_taken [''r'', ''Documents'', ''txt'', ''x.txt''] \<and>
   safe_destination fs_taken [''r'', ''Documents'', ''txt'', ''x.txt''] False
     = [''r'', ''Documents'', ''txt'', ''x (2).txt''] \<and>
   \<not> exists_path fs_taken (safe_destination fs_taken [''r'', ''Documents'', ''txt'', ''x.txt''] False) \<and>
   safe_destination fs_taken [''r'', ''Documents'', ''txt'', ''x.txt''] True
     = [''r'', ''Documents'', ''txt'', ''x.txt'']"
proof -
  have e: "exists_path fs_taken [''r'', ''Documents'', ''txt'', ''x.txt'']" by code_simp
  have v: "safe_destination fs_taken [''r'', ''Documents'', ''txt'', ''x.txt''] False
     = [''r'', ''Documents'', ''txt'', ''x (2).txt'']" by code_simp
  from safe_destination_correct [of False fs_taken "[''r'', ''Documents'', ''txt'', ''x.txt'']"]
  have n: "\<not> exists_path fs_taken
      (safe_destination fs_taken [''r'', ''Documents'', ''txt'', ''x.txt''] False)" by simp
  from safe_destination_correct [of True fs_taken "[''r'', ''Documents'', ''txt'', ''x.txt'']"]
  have t: "safe_destination fs_taken [''r'', ''Documents'', ''txt'', ''x.txt''] True
     = [''r'', ''Documents'', ''txt'', ''x.txt'']" by simp
  from e v n t show ?thesis by simp
qed

section \<open>Properties of the relocator\<close>

subsection \<open>What the file operations keep\<close>

lemma os_mkdir_keeps: "os_mkdir fs p = Inr fs' \<Longrightarrow> set fs \<subseteq> set fs'"
  by (auto simp: os_mkdir_def split: if_splits)

lemma mkdir_single_keeps: "set fs \<subseteq> set (snd (mkdir_single fs p))"
  using os_mkdir_keeps [of fs p]
  by (auto simp: mkdir_single_def split: sum.splits)

lemma mkdir_parents_keeps: "set fs \<subseteq> set (snd (mkdir_parents fs p))"
proof (induction fs p rule: mkdir_parents.induct)
  case (1 fs p)
  show ?case
  proof (cases "os_mkdir fs p")
    case (Inr fs')
    then show ?thesis
      using os_mkdir_keeps [OF Inr] by (subst mkdir_parents.simps) simp
  next
    case (Inl e)
    show ?thesis
    proof (cases "e = FileNotFoundError \<and> parent p \<noteq> p")
      case False
      with Inl show ?thesis by (subst mkdir_parents.simps) auto
    next
      case True
      with "1.IH" [OF Inl] have ih: "set fs \<subseteq> set (snd (mkdir_parents fs (parent p)))" by simp
      obtain r fs' where m: "mkdir_parents fs (parent p) = (r, fs')" by (cases "mkdir_parents fs (parent p)")
      with ih have sub: "set fs \<subseteq> set fs'" by simp
      show ?thesis
      proof (cases r)
        case None
        with Inl True m have "mkdir_parents fs p = mkdir_single fs' p"
          by (subst mkdir_parents.simps) simp
        with sub mkdir_single_keeps [of fs' p] show ?thesis by auto
      next
        case (Some e')
        with Inl True m have "mkdir_parents fs p = (Some e', fs')"
          by (subst mkdir_parents.simps) simp
        with sub show ?thesis by simp
      qed
    qed
  qed
qed

lemma os_rename_keeps_file:
  "os_rename fs src dst = Inr fs' \<Longrightarrow> (q, File) \<in> set fs \<Longrightarrow> q \<noteq> src \<Longrightarrow> (q, File) \<in> set fs'"
  by (auto simp: os_rename_def split: if_splits)

lemma shutil_move_keeps_file:
  "shutil_move fs src dst = Inr fs' \<Longrightarrow> (q, File) \<in> set fs \<Longrightarrow> q \<noteq> src \<Longrightarrow> (q, File) \<in> set fs'"
  by (auto simp: shutil_move_def Let_def split: if_splits dest: os_rename_keeps_file)

subsection \<open>One call of \<open>move_file\<close>\<close>

lemma move_file_dry_run:
  "move_file w src dest True overwrite verbose =
     (None, print_msg (DryRunWouldMove src (safe_destination (disk w) dest overwrite))
              (w\<lparr>decided := decided w @ [(src, safe_destination (disk w) dest overwrite)]\<rparr>))"
  by (simp add: move_file_def Let_def)

lemma move_file_decided:
  "decided (snd (move_file w src dest dry_run overwrite verbose)) =
     decided w @ [(src, safe_destination (disk w) dest overwrite)]"
  by (simp add: move_file_def Let_def print_msg_def split: prod.splits option.splits sum.splits)

lemma move_file_keeps_file:
  assumes "(q, File) \<in> set (disk w)" and "q \<noteq> src"
  shows "(q, File) \<in> set (disk (snd (move_file w src dest dry_run overwrite verbose)))"
proof (cases dry_run)
  case True
  with assms show ?thesis by (simp add: move_file_dry_run print_msg_def)
next
  case False
  let ?d = "safe_destination (disk w) dest overwrite"
  obtain r fs' where m: "mkdir_parents (disk w) (parent ?d) = (r, fs')"
    by (cases "mkdir_parents (disk w) (parent ?d)")
  with mkdir_parents_keeps [of "disk w" "parent ?d"] assms(1) have q: "(q, File) \<in> set fs'" by auto
  show ?thesis
  proof (cases r)
    case (Some e)
    with False m q show ?thesis by (simp add: move_file_def Let_def print_msg_def)
  next
    case None
    show ?thesis
    proof (cases "shutil_move fs' src ?d")
      case (Inl e)
      with False m None q show ?thesis by (simp add: move_file_def Let_def print_msg_def)
    next
      case (Inr fs'')
      with shutil_move_keeps_file [OF Inr q assms(2)] False m None show ?thesis
        by (simp add: move_file_def Let_def print_msg_def)
    qed
  qed
qed

subsection \<open>One turn of the loop\<close>

lemma organize_step_skip:
  assumes "is_dir (disk w) p \<or> (skip_hidden \<and> hidden p) \<or> already_organized target p"
  shows "fst (organize_step host target dry_run overwrite verbose skip_hidden w p) = None \<and>
         disk (snd (organize_step host target dry_run overwrite verbose skip_hidden w p)) = disk w \<and>
         decided (snd (organize_step host target dry_run overwrite verbose skip_hidden w p)) = decided w"
  using assms by (auto simp: organize_step_def print_msg_def)

lemma organize_step_keeps_file:
  assumes "(q, File) \<in> set (disk w)" and "q \<noteq> p"
  shows "(q, File) \<in> set (disk (snd (organize_step host target dry_run overwrite verbose skip_hidden w p)))"
  using assms by (auto simp: organize_step_def print_msg_def intro: move_file_keeps_file)

lemma organize_step_sources:
  "fst ` set (decided (snd (organize_step host target dry_run overwrite verbose skip_hidden w p)))
     \<subseteq> insert p (fst ` set (decided w))"
  by (auto simp: organize_step_def print_msg_def move_file_decided)

lemma organize_step_untouched:
  assumes "(skip_hidden \<and> hidden q) \<or> already_organized target q"
  shows "(q \<notin> fst ` set (decided w) \<longrightarrow>
            q \<notin> fst ` set (decided (snd (organize_step host target dry_run overwrite verbose skip_hidden w p)))) \<and>
         ((q, File) \<in> set (disk w) \<longrightarrow>
            (q, File) \<in> set (disk (snd (organize_step host target dry_run overwrite verbose skip_hidden w p))))"
proof (cases "p = q")
  case True
  with assms organize_step_skip [of w q skip_hidden target host dry_run overwrite verbose]
  show ?thesis by simp
next
  case False
  with organize_step_sources [of host target dry_run overwrite verbose skip_hidden w p]
    organize_step_keeps_file [of q w p host target dry_run overwrite verbose skip_hidden]
  show ?thesis by auto
qed

subsection \<open>The whole loop\<close>

lemma organize_loop_untouched:
  assumes "(skip_hidden \<and> hidden q) \<or> already_organized target q"
  shows "(q \<notin> fst ` set (decided w) \<longrightarrow>
            q \<notin> fst ` set (decided (snd (organize_loop host target dry_run overwrite verbose skip_hidden w ps)))) \<and>
         ((q, File) \<in> set (disk w) \<longrightarrow>
            (q, File) \<in> set (disk (snd (organize_loop host target dry_run overwrite verbose skip_hidden w ps))))"
proof (induction ps arbitrary: w)
  case Nil
  show ?case by simp
next
  case (Cons p ps)
  obtain r w' where s: "organize_step host target dry_run overwrite verbose skip_hidden w p = (r, w')"
    by (cases "organize_step host target dry_run overwrite verbose skip_hidden w p")
  from organize_step_untouched [OF assms, of w host dry_run overwrite verbose p] s
  have st: "(q \<notin> fst ` set (decided w) \<longrightarrow> q \<notin> fst ` set (decided w')) \<and>
            ((q, File) \<in> set (disk w) \<longrightarrow> (q, File) \<in> set (disk w'))" by simp
  show ?case
  proof (cases r)
    case (Some e)
    with s st show ?thesis by simp
  next
    case None
    with s have "organize_loop host target dry_run overwrite verbose skip_hidden w (p # ps)
        = organize_loop host target dry_run overwrite verbose skip_hidden w' ps" by simp
    with st Cons.IH [of w'] show ?thesis by simp
  qed
qed

lemma organize_loop_dry_run:
  "fst (organize_loop host target True overwrite verbose skip_hidden w ps) = None \<and>
   disk (snd (organize_loop host target True overwrite verbose skip_hidden w ps)) = disk w"
proof (induction ps arbitrary: w)
  case Nil
  show ?case by simp
next
  case (Cons p ps)
  have "fst (organize_step host target True overwrite verbose skip_hidden w p) = None \<and>
        disk (snd (organize_step host target True overwrite verbose skip_hidden w p)) = disk w"
    by (simp add: organize_step_def move_file_dry_run print_msg_def)
  then obtain w' where "organize_step host target True overwrite verbose skip_hidden w p = (None, w')"
    and "disk w' = disk w"
    by (cases "organize_step host target True overwrite verbose skip_hidden w p") auto
  with Cons.IH [of w'] show ?case by simp
qed

lemma is_dir_exists: "is_dir fs p \<Longrightarrow> exists_path fs p"
  by (force simp: is_dir_def exists_path_def)

lemma hidden_prefix: "hidden target \<Longrightarrow> prefix target p \<Longrightarrow> hidden p"
  by (auto simp: hidden_def list_ex_iff prefix_def)

lemma rglob_prefix: "p \<in> set (rglob fs target) \<Longrightarrow> prefix target p"
  by (auto simp: rglob_def strict_prefix_def)

lemma iterdir_prefix: "p \<in> set (iterdir fs target) \<Longrightarrow> prefix target p"
proof -
  assume "p \<in> set (iterdir fs target)"
  then have "p \<noteq> []" "butlast p = target" by (auto simp: iterdir_def parent_def)
  then have "p = target @ [last p]" by (metis append_butlast_last_id)
  then show ?thesis by (metis prefixI)
qed

lemma organize_loop_all_hidden:
  assumes "\<forall>p\<in>set ps. hidden p"
  shows "organize_loop host target dry_run overwrite verbose True w ps =
     (None, w\<lparr>printed := printed w @
        (if verbose then map SkippingHidden (filter (\<lambda>p. \<not> is_dir (disk w) p) ps) else [])\<rparr>)"
  using assms
proof (induction ps arbitrary: w)
  case Nil
  show ?case by simp
next
  case (Cons p ps)
  then have h: "hidden p" and rest: "\<forall>p\<in>set ps. hidden p" by simp_all
  show ?case
  proof (cases "is_dir (disk w) p")
    case True
    then have "organize_step host target dry_run overwrite verbose True w p = (None, w)"
      by (simp add: organize_step_def)
    with Cons.IH [OF rest, of w] True show ?thesis by simp
  next
    case False
    with h have "organize_step host target dry_run overwrite verbose True w p =
        (None, if verbose then print_msg (SkippingHidden p) w else w)"
      by (simp add: organize_step_def)
    with Cons.IH [OF rest, of "if verbose then print_msg (SkippingHidden p) w else w"] False
    show ?thesis by (simp add: print_msg_def)
  qed
qed

subsection \<open>The claims about a pass\<close>

text \<open>
  Claim C7. A pass with \<open>dry_run\<close> over a valid target changes nothing: it ends without an
  exception, and the file system after it is the file system before it, so no directory
  was created and no file moved.
\<close>

theorem dry_run_no_mutation:
  assumes "exists_path fs target" and "is_dir fs target"
  shows "fst (organize_directory host fs target recursive True overwrite verbose skip_hidden) = None \<and>
         disk (snd (organize_directory host fs target recursive True overwrite verbose skip_hidden)) = fs"
  using assms
    organize_loop_dry_run [of host target overwrite verbose skip_hidden
      "\<lparr>disk = fs, printed = [], decided = []\<rparr>"
      "if recursive then rglob fs target else iterdir fs target"]
  by (simp add: organize_directory_def Let_def)

text \<open>
  An instance: a recursive dry run over two folders that each hold \<^verbatim>\<open>x.txt\<close> decides twice
  and leaves the file system as it was.
\<close>

theorem dry_run_no_mutation_witness:
  "exists_path fs_two_dirs [''r''] \<and> is_dir fs_two_dirs [''r''] \<and>
   fst (organize_directory host_none fs_two_dirs [''r''] True True False True True) = None \<and>
   disk (snd (organize_directory host_none fs_two_dirs [''r''] True True False True True)) = fs_two_dirs \<and>
   length (decided (snd (organize_directory host_none fs_two_dirs [''r''] True True False True True))) = 2"
proof -
  have e: "exists_path fs_two_dirs [''r'']" by code_simp
  have d: "is_dir fs_two_dirs [''r'']" by code_simp
  have n: "length (decided (snd (organize_directory host_none fs_two_dirs [''r''] True True False True True))) = 2"
    by code_simp
  from dry_run_no_mutation [OF e d, of host_none True False True True] e d n
  show ?thesis by simp
qed

text \<open>
  Claim C10. The hidden test reads every component of the path, those of the target
  included. If a component of the target begins with a dot, a pass with \<open>skip_hidden\<close>
  skips every file it enumerates as hidden (printing so when \<open>verbose\<close>), decides nothing
  and leaves the file system as it was, whatever the paths are below the target.
\<close>

theorem hidden_target_skips_everything:
  assumes "exists_path fs target" and "is_dir fs target" and "hidden target"
  shows "organize_directory host fs target recursive dry_run overwrite verbose True =
     (None, \<lparr>disk = fs,
             printed = (if verbose
                        then map SkippingHidden
                               (filter (\<lambda>p. \<not> is_dir fs p)
                                  (if recursive then rglob fs target else iterdir fs target))
                        else []),
             decided = []\<rparr>)"
proof -
  let ?ps = "if recursive then rglob fs target else iterdir fs target"
  have "\<forall>p\<in>set ?ps. hidden p"
    using assms(3) by (auto intro: hidden_prefix rglob_prefix iterdir_prefix)
  from organize_loop_all_hidden [OF this, of host target dry_run overwrite verbose
      "\<lparr>disk = fs, printed = [], decided = []\<rparr>"] assms(1,2)
  show ?thesis by (simp add: organize_directory_def Let_def)
qed

text \<open>
  An instance: under the target \<^verbatim>\<open>.cache\<close>, the file \<^verbatim>\<open>a.jpg\<close>, whose path below the target has
  no hidden component, is skipped as hidden.
\<close>

theorem hidden_target_skips_everything_witness:
  "exists_path fs_hidden_root [''.cache''] \<and> is_dir fs_hidden_root [''.cache''] \<and>
   hidden [''.cache''] \<and> \<not> hidden [''a.jpg''] \<and>
   organize_directory host_none fs_hidden_root [''.cache''] True False False True True =
     (None, \<lparr>disk = fs_hidden_root, printed = [SkippingHidden [''.cache'', ''a.jpg'']],
             decided = []\<rparr>)"
proof -
  have e: "exists_path fs_hidden_root [''.cache'']" by code_simp
  have d: "is_dir fs_hidden_root [''.cache'']" by code_simp
  have h: "hidden [''.cache'']" by code_simp
  have n: "\<not> hidden [''a.jpg'']" by code_simp
  have l: "map SkippingHidden (filter (\<lambda>p. \<not> is_dir fs_hidden_root p) (rglob fs_hidden_root [''.cache'']))
      = [SkippingHidden [''.cache'', ''a.jpg'']]" by code_simp
  from hidden_target_skips_everything [OF e d h, of host_none True False False True] l e d h n
  show ?thesis by simp
qed

lemma category_names_fixed:
  assumes "c \<in> {''Images'', ''Videos'', ''Audio'', ''Documents'', ''Archives'', ''Code'', ''Others''}"
  shows "c \<in> category_names"
proof -
  from assms have "c \<in> set [''Documents'', ''Images'', ''Videos'', ''Audio'', ''Archives'', ''Code'', ''Others'']"
    by auto
  then show ?thesis unfolding category_names_def by (rule UnI2)
qed

lemma already_organized_inside:
  assumes "c \<in> category_names" and "rest \<noteq> []"
  shows "already_organized target (target @ c # rest)"
proof -
  from assms(2) have "butlast (target @ c # rest) = target @ c # butlast rest"
    by (simp add: butlast_append)
  then have "parent (target @ c # rest) \<noteq> target" by (simp add: parent_def)
  moreover have "relative_to (target @ c # rest) target = Some (c # rest)"
    by (simp add: relative_to_def)
  moreover from assms(2) have "2 \<le> length (c # rest)" by (cases rest) simp_all
  ultimately show ?thesis using assms(1) by (simp add: already_organized_def)
qed

lemma organize_directory_untouched:
  assumes "(skip_hidden \<and> hidden q) \<or> already_organized target q"
  shows "q \<notin> fst ` set (decided (snd (organize_directory host fs target recursive dry_run overwrite verbose skip_hidden))) \<and>
         ((q, File) \<in> set fs \<longrightarrow>
            (q, File) \<in> set (disk (snd (organize_directory host fs target recursive dry_run overwrite verbose skip_hidden))))"
  using organize_loop_untouched [OF assms, of "\<lparr>disk = fs, printed = [], decided = []\<rparr>"
      host dry_run overwrite verbose "if recursive then rglob fs target else iterdir fs target"]
  by (simp add: organize_directory_def Let_def)

text \<open>
  Claim C2. A path whose first component below the target is one of the seven category
  names, and which lies two levels or more below the target, passes the test of line
  157: the loop body skips it, leaving the file system and the decisions as they were. In
  every pass, recursive or not, such a path is never the source of a decision, and a file
  there is still there after the pass. A path directly below the target never passes
  that test, whatever its name.
\<close>

theorem already_organized_never_moved:
  assumes "c \<in> {''Images'', ''Videos'', ''Audio'', ''Documents'', ''Archives'', ''Code'', ''Others''}"
    and "rest \<noteq> []"
  shows "already_organized target (target @ c # rest) \<and>
         fst (organize_step host target dry_run overwrite verbose skip_hidden w (target @ c # rest)) = None \<and>
         disk (snd (organize_step host target dry_run overwrite verbose skip_hidden w (target @ c # rest))) = disk w \<and>
         decided (snd (organize_step host target dry_run overwrite verbose skip_hidden w (target @ c # rest))) = decided w \<and>
         target @ c # rest \<notin> fst ` set (decided (snd (organize_directory host fs target recursive dry_run overwrite verbose skip_hidden))) \<and>
         ((target @ c # rest, File) \<in> set fs \<longrightarrow>
            (target @ c # rest, File) \<in> set (disk (snd (organize_directory host fs target recursive dry_run overwrite verbose skip_hidden)))) \<and>
         \<not> already_organized target (target @ [n])"
proof -
  from assms have a: "already_organized target (target @ c # rest)"
    by (intro already_organized_inside category_names_fixed)
  then have b: "is_dir (disk w) (target @ c # rest) \<or> (skip_hidden \<and> hidden (target @ c # rest)) \<or>
      already_organized target (target @ c # rest)" by simp
  from a have c: "(skip_hidden \<and> hidden (target @ c # rest)) \<or> already_organized target (target @ c # rest)"
    by simp
  have d: "\<not> already_organized target (target @ [n])"
    by (simp add: already_organized_def parent_def)
  from a organize_step_skip [OF b, of host dry_run overwrite verbose]
    organize_directory_untouched [OF c, of host fs recursive dry_run overwrite verbose] d
  show ?thesis by simp
qed

text \<open>
  An instance: in a recursive live pass, \<^verbatim>\<open>r/Images/jpg/photo.jpg\<close> stays, and the
  \<^verbatim>\<open>photo.jpg\<close> directly below the target is moved beside it under a new name; the directory
  \<^verbatim>\<open>Images\<close> itself, directly below the target, does not pass the test.
\<close>

theorem already_organized_never_moved_witness:
  "([''r'', ''Images'', ''jpg'', ''photo.jpg''], File) \<in> set fs_organized \<and>
   [''r'', ''Images'', ''jpg'', ''photo.jpg'']
      \<notin> fst ` set (decided (snd (organize_directory host_none fs_organized [''r''] True False False True True))) \<and>
   ([''r'', ''Images'', ''jpg'', ''photo.jpg''], File)
      \<in> set (disk (snd (organize_directory host_none fs_organized [''r''] True False False True True))) \<and>
   decided (snd (organize_directory host_none fs_organized [''r''] True False False True True))
      = [([''r'', ''photo.jpg''], [''r'', ''Images'', ''jpg'', ''photo (1).jpg''])] \<and>
   \<not> already_organized [''r''] [''r'', ''Images'']"
proof -
  have c: "''Images'' \<in> {''Images'', ''Videos'', ''Audio'', ''Documents'', ''Archives'', ''Code'', ''Others''}"
    by simp
  have r: "[''jpg'', ''photo.jpg''] \<noteq> []" by simp
  have f: "([''r'', ''Images'', ''jpg'', ''photo.jpg''], File) \<in> set fs_organized"
    by (simp add: fs_organized_def)
  have d: "decided (snd (organize_directory host_none fs_organized [''r''] True False False True True))
      = [([''r'', ''photo.jpg''], [''r'', ''Images'', ''jpg'', ''photo (1).jpg''])]" by code_simp
  from already_organized_never_moved [OF c r, of "[''r'']" host_none False False True True _
      fs_organized True "''Images''"] f d
  show ?thesis by simp
qed

lemma move_file_no_hidden_message:
  "SkippingHidden q \<in> set (printed (snd (move_file w src dest dry_run overwrite verbose)))
     \<Longrightarrow> SkippingHidden q \<in> set (printed w)"
  by (auto simp: move_file_def Let_def print_msg_def split: prod.splits option.splits sum.splits if_splits)

lemma organize_step_no_hidden_message:
  "SkippingHidden q \<in> set (printed (snd (organize_step host target dry_run overwrite verbose False w p)))
     \<Longrightarrow> SkippingHidden q \<in> set (printed w)"
  by (auto simp: organize_step_def print_msg_def split: if_splits dest: move_file_no_hidden_message)

lemma organize_loop_no_hidden_message:
  "SkippingHidden q \<in> set (printed (snd (organize_loop host target dry_run overwrite verbose False w ps)))
     \<Longrightarrow> SkippingHidden q \<in> set (printed w)"
proof (induction ps arbitrary: w)
  case Nil
  then show ?case by simp
next
  case (Cons p ps)
  obtain r w' where s: "organize_step host target dry_run overwrite verbose False w p = (r, w')"
    by (cases "organize_step host target dry_run overwrite verbose False w p")
  have "SkippingHidden q \<in> set (printed w')"
  proof (cases r)
    case (Some e)
    with s Cons.prems show ?thesis by simp
  next
    case None
    with s Cons.prems Cons.IH [of w'] show ?thesis by simp
  qed
  with s organize_step_no_hidden_message [of q host target dry_run overwrite verbose w p]
  show ?case by simp
qed

text \<open>
  Claim C9, as stated, fails in its report: in a pass with \<open>skip_hidden\<close> and without
  \<open>verbose\<close>, the hidden file \<^verbatim>\<open>.hidden.txt\<close> is found and left out, and nothing is printed
  about it (line 143 prints only when \<open>verbose\<close>).
\<close>

theorem hidden_not_reported_counterexample:
  "wf_fs fs_hidden \<and>
   [''r'', ''.hidden.txt''] \<in> set (iterdir fs_hidden [''r'']) \<and>
   hidden [''r'', ''.hidden.txt''] \<and>
   \<not> is_dir fs_hidden [''r'', ''.hidden.txt''] \<and>
   organize_directory host_none fs_hidden [''r''] False False False False True =
     (None, \<lparr>disk = [([], Dir), ([''r''], Dir), ([''r'', ''.hidden.txt''], File),
                      ([''r'', ''Images''], Dir), ([''r'', ''Images'', ''jpg''], Dir),
                      ([''r'', ''Images'', ''jpg'', ''a.jpg''], File)],
             printed = [],
             decided = [([''r'', ''a.jpg''], [''r'', ''Images'', ''jpg'', ''a.jpg''])]\<rparr>)"
  by code_simp

text \<open>
  Claim C9, amended. With \<open>skip_hidden\<close>, the loop body leaves out every path that is not a
  directory and has a component beginning with a dot: it classifies and moves nothing,
  and prints that it skips the path when \<open>verbose\<close> is set, and only then. In every such
  pass a hidden path is never the source of a decision, and a hidden file is still there
  after the pass. Without \<open>skip_hidden\<close>, no path is reported as skipped for being hidden,
  and every path that is neither a directory nor already organized is handed to
  \<^verbatim>\<open>move_file\<close>, hidden or not.
\<close>

theorem hidden_files_excluded:
  "(hidden p \<and> \<not> is_dir (disk w) p \<longrightarrow>
      organize_step host target dry_run overwrite verbose True w p =
        (None, if verbose then print_msg (SkippingHidden p) w else w)) \<and>
   (hidden p \<longrightarrow>
      p \<notin> fst ` set (decided (snd (organize_directory host fs target recursive dry_run overwrite verbose True))) \<and>
      ((p, File) \<in> set fs \<longrightarrow>
         (p, File) \<in> set (disk (snd (organize_directory host fs target recursive dry_run overwrite verbose True))))) \<and>
   SkippingHidden p \<notin> set (printed (snd (organize_directory host fs target recursive dry_run overwrite verbose False))) \<and>
   (\<not> is_dir (disk w) p \<and> \<not> already_organized target p \<longrightarrow>
      organize_step host target dry_run overwrite verbose False w p =
        move_file w p (desired_destination host target p) dry_run overwrite verbose)"
proof (intro conjI impI)
  assume "hidden p \<and> \<not> is_dir (disk w) p"
  then show "organize_step host target dry_run overwrite verbose True w p =
        (None, if verbose then print_msg (SkippingHidden p) w else w)"
    by (simp add: organize_step_def)
next
  assume h: "hidden p"
  then have "(True \<and> hidden p) \<or> already_organized target p" by simp
  from organize_directory_untouched [OF this, of host fs recursive dry_run overwrite verbose]
  show "p \<notin> fst ` set (decided (snd (organize_directory host fs target recursive dry_run overwrite verbose True)))"
    by simp
  assume "(p, File) \<in> set fs"
  with organize_directory_untouched [OF \<open>(True \<and> hidden p) \<or> already_organized target p\<close>,
      of host fs recursive dry_run overwrite verbose]
  show "(p, File) \<in> set (disk (snd (organize_directory host fs target recursive dry_run overwrite verbose True)))"
    by simp
next
  show "SkippingHidden p \<notin> set (printed (snd (organize_directory host fs target recursive dry_run overwrite verbose False)))"
    using organize_loop_no_hidden_message [of p host target dry_run overwrite verbose
        "\<lparr>disk = fs, printed = [], decided = []\<rparr>"
        "if recursive then rglob fs target else iterdir fs target"]
    by (auto simp: organize_directory_def Let_def)
next
  assume "\<not> is_dir (disk w) p \<and> \<not> already_organized target p"
  then show "organize_step host target dry_run overwrite verbose False w p =
        move_file w p (desired_destination host target p) dry_run overwrite verbose"
    by (simp add: organize_step_def)
qed

text \<open>
  An instance: in a verbose pass with \<open>skip_hidden\<close>, \<^verbatim>\<open>.hidden.txt\<close> is reported as skipped
  and stays, while \<^verbatim>\<open>a.jpg\<close> is moved.
\<close>

theorem hidden_files_excluded_witness:
  "hidden [''r'', ''.hidden.txt''] \<and>
   ([''r'', ''.hidden.txt''], File) \<in> set fs_hidden \<and>
   [''r'', ''.hidden.txt'']
     \<notin> fst ` set (decided (snd (organize_directory host_none fs_hidden [''r''] False False False True True))) \<and>
   ([''r'', ''.hidden.txt''], File)
     \<in> set (disk (snd (organize_directory host_none fs_hidden [''r''] False False False True True))) \<and>
   printed (snd (organize_directory host_none fs_hidden [''r''] False False False True True))
     = [SkippingHidden [''r'', ''.hidden.txt''], Moving [''r'', ''a.jpg''] [''r'', ''Images'', ''jpg'', ''a.jpg'']]"
proof -
  have h: "hidden [''r'', ''.hidden.txt'']" by code_simp
  have f: "([''r'', ''.hidden.txt''], File) \<in> set fs_hidden" by (simp add: fs_hidden_def)
  have p: "printed (snd (organize_directory host_none fs_hidden [''r''] False False False True True))
     = [SkippingHidden [''r'', ''.hidden.txt''], Moving [''r'', ''a.jpg''] [''r'', ''Images'', ''jpg'', ''a.jpg'']]"
    by code_simp
  from hidden_files_excluded [of "[''r'', ''.hidden.txt'']" _ host_none "[''r'']" False False True
      fs_hidden False] h f p
  show ?thesis by simp
qed

lemma organize_step_decided_extends:
  "\<exists>xs. decided (snd (organize_step host target dry_run overwrite verbose skip_hidden w p))
          = decided w @ xs"
  by (simp add: organize_step_def print_msg_def move_file_decided)

lemma organize_loop_decided_extends:
  "\<exists>xs. decided (snd (organize_loop host target dry_run overwrite verbose skip_hidden w ps))
          = decided w @ xs"
proof (induction ps arbitrary: w)
  case Nil
  show ?case by simp
next
  case (Cons p ps)
  obtain r w' where s: "organize_step host target dry_run overwrite verbose skip_hidden w p = (r, w')"
    by (cases "organize_step host target dry_run overwrite verbose skip_hidden w p")
  with organize_step_decided_extends [of host target dry_run overwrite verbose skip_hidden w p]
  obtain xs where xs: "decided w' = decided w @ xs" by auto
  show ?case
  proof (cases r)
    case (Some e)
    with s xs show ?thesis by simp
  next
    case None
    from Cons.IH [of w'] obtain ys where
      "decided (snd (organize_loop host target dry_run overwrite verbose skip_hidden w' ps))
         = decided w' @ ys" by blast
    with None s xs show ?thesis by simp
  qed
qed

lemma organize_step_same_decision:
  "decided (snd (organize_step host target True overwrite verbose skip_hidden w p)) =
   decided (snd (organize_step host target False overwrite verbose skip_hidden w p))"
  by (simp add: organize_step_def print_msg_def move_file_decided)

lemma organize_loop_first_decision:
  assumes "disk w1 = disk w2" and "decided w1 = []" and "decided w2 = []"
  shows "take 1 (decided (snd (organize_loop host target True overwrite verbose skip_hidden w1 ps))) =
         take 1 (decided (snd (organize_loop host target False overwrite verbose skip_hidden w2 ps)))"
  using assms
proof (induction ps arbitrary: w1 w2)
  case Nil
  then show ?case by simp
next
  case (Cons p ps)
  let ?skip = "is_dir (disk w1) p \<or> (skip_hidden \<and> hidden p) \<or> already_organized target p"
  obtain r1 v1 where s1: "organize_step host target True overwrite verbose skip_hidden w1 p = (r1, v1)"
    by (cases "organize_step host target True overwrite verbose skip_hidden w1 p")
  obtain r2 v2 where s2: "organize_step host target False overwrite verbose skip_hidden w2 p = (r2, v2)"
    by (cases "organize_step host target False overwrite verbose skip_hidden w2 p")
  show ?case
  proof (cases ?skip)
    case True
    from organize_step_skip [OF True, of host True overwrite verbose] s1
    have a: "r1 = None" "disk v1 = disk w1" "decided v1 = decided w1" by simp_all
    from True Cons.prems(1)
    have "is_dir (disk w2) p \<or> (skip_hidden \<and> hidden p) \<or> already_organized target p" by simp
    from organize_step_skip [OF this, of host False overwrite verbose] s2
    have b: "r2 = None" "disk v2 = disk w2" "decided v2 = decided w2" by simp_all
    from a b Cons.prems have "disk v1 = disk v2" "decided v1 = []" "decided v2 = []" by simp_all
    from Cons.IH [OF this] a(1) b(1) s1 s2 show ?thesis by simp
  next
    case False
    let ?d = "(p, safe_destination (disk w1) (desired_destination host target p) overwrite)"
    from False have "organize_step host target True overwrite verbose skip_hidden w1 p =
        move_file w1 p (desired_destination host target p) True overwrite verbose"
      by (auto simp: organize_step_def)
    with s1 have "v1 = snd (move_file w1 p (desired_destination host target p) True overwrite verbose)"
      by simp
    with Cons.prems have d1: "decided v1 = [?d]" by (simp add: move_file_decided)
    from False Cons.prems(1)
    have "organize_step host target False overwrite verbose skip_hidden w2 p =
        move_file w2 p (desired_destination host target p) False overwrite verbose"
      by (auto simp: organize_step_def)
    with s2 have "v2 = snd (move_file w2 p (desired_destination host target p) False overwrite verbose)"
      by simp
    with Cons.prems have d2: "decided v2 = [?d]" by (simp add: move_file_decided)
    have "\<exists>xs. decided (snd (organize_loop host target True overwrite verbose skip_hidden w1 (p # ps)))
        = decided v1 @ xs"
      using s1 organize_loop_decided_extends [of host target True overwrite verbose skip_hidden v1 ps]
      by (cases r1) auto
    moreover
    have "\<exists>xs. decided (snd (organize_loop host target False overwrite verbose skip_hidden w2 (p # ps)))
        = decided v2 @ xs"
      using s2 organize_loop_decided_extends [of host target False overwrite verbose skip_hidden v2 ps]
      by (cases r2) auto
    ultimately show ?thesis using d1 d2 by auto
  qed
qed

text \<open>
  What a step leaves alone: a path that exists and is not the source of the step still
  exists after it, and is a directory after it exactly when it was one before.
\<close>

lemma exists_path_iff: "exists_path fs p \<longleftrightarrow> (\<exists>k. (p, k) \<in> set fs)"
  by (force simp: exists_path_def)

lemma os_mkdir_stable:
  assumes "os_mkdir fs x = Inr fs'" and "exists_path fs p"
  shows "exists_path fs' p \<and> is_dir fs' p = is_dir fs p"
  using assms by (auto simp: os_mkdir_def exists_path_iff is_dir_def split: if_splits)

lemma mkdir_single_stable:
  assumes "exists_path fs p"
  shows "exists_path (snd (mkdir_single fs x)) p \<and> is_dir (snd (mkdir_single fs x)) p = is_dir fs p"
proof (cases "os_mkdir fs x")
  case (Inl e)
  with assms show ?thesis by (simp add: mkdir_single_def)
next
  case (Inr fs')
  with os_mkdir_stable [OF Inr assms] show ?thesis by (simp add: mkdir_single_def)
qed

lemma mkdir_parents_stable:
  "exists_path fs p \<Longrightarrow>
     exists_path (snd (mkdir_parents fs x)) p \<and> is_dir (snd (mkdir_parents fs x)) p = is_dir fs p"
proof (induction fs x rule: mkdir_parents.induct)
  case (1 fs x)
  show ?case
  proof (cases "os_mkdir fs x")
    case (Inr fs')
    with os_mkdir_stable [OF Inr "1.prems"] show ?thesis
      by (subst (1 2) mkdir_parents.simps) simp
  next
    case (Inl e)
    show ?thesis
    proof (cases "e = FileNotFoundError \<and> parent x \<noteq> x")
      case False
      with Inl "1.prems" show ?thesis by (subst (1 2) mkdir_parents.simps) auto
    next
      case True
      with "1.IH" [OF Inl] "1.prems"
      have ih: "exists_path (snd (mkdir_parents fs (parent x))) p \<and>
                is_dir (snd (mkdir_parents fs (parent x))) p = is_dir fs p" by simp
      obtain r fs' where m: "mkdir_parents fs (parent x) = (r, fs')"
        by (cases "mkdir_parents fs (parent x)")
      with ih have st: "exists_path fs' p" "is_dir fs' p = is_dir fs p" by simp_all
      show ?thesis
      proof (cases r)
        case None
        with Inl True m have "mkdir_parents fs x = mkdir_single fs' x"
          by (subst mkdir_parents.simps) simp
        with st mkdir_single_stable [OF st(1), of x] show ?thesis by simp
      next
        case (Some e')
        with Inl True m have "mkdir_parents fs x = (Some e', fs')"
          by (subst mkdir_parents.simps) simp
        with st show ?thesis by simp
      qed
    qed
  qed
qed

lemma os_rename_stable:
  assumes "os_rename fs src dst = Inr fs'" and "exists_path fs p" and "p \<noteq> src"
  shows "exists_path fs' p \<and> is_dir fs' p = is_dir fs p"
proof -
  from assms(1) consider (same) "fs' = fs"
    | (moved) "\<not> is_dir fs dst"
        "fs' = filter (\<lambda>(q, k). q \<noteq> src \<and> q \<noteq> dst) fs @ [(dst, File)]"
    by (auto simp: os_rename_def split: if_splits)
  then show ?thesis
  proof cases
    case same
    with assms(2) show ?thesis by simp
  next
    case moved
    show ?thesis
    proof (cases "p = dst")
      case True
      with moved show ?thesis by (auto simp: exists_path_iff is_dir_def)
    next
      case False
      with moved assms(2,3) show ?thesis by (auto simp: exists_path_iff is_dir_def)
    qed
  qed
qed

lemma shutil_move_stable:
  assumes "shutil_move fs src dst = Inr fs'" and "exists_path fs p" and "p \<noteq> src"
  shows "exists_path fs' p \<and> is_dir fs' p = is_dir fs p"
  using assms by (auto simp: shutil_move_def Let_def split: if_splits dest: os_rename_stable)

lemma move_file_stable:
  assumes "exists_path (disk w) p" and "p \<noteq> src"
  shows "exists_path (disk (snd (move_file w src dest dry_run overwrite verbose))) p \<and>
         is_dir (disk (snd (move_file w src dest dry_run overwrite verbose))) p = is_dir (disk w) p"
proof (cases dry_run)
  case True
  with assms show ?thesis by (simp add: move_file_dry_run print_msg_def)
next
  case False
  let ?d = "safe_destination (disk w) dest overwrite"
  obtain r fs' where m: "mkdir_parents (disk w) (parent ?d) = (r, fs')"
    by (cases "mkdir_parents (disk w) (parent ?d)")
  with mkdir_parents_stable [OF assms(1), of "parent ?d"]
  have st: "exists_path fs' p" "is_dir fs' p = is_dir (disk w) p" by simp_all
  show ?thesis
  proof (cases r)
    case (Some e)
    with False m st show ?thesis by (simp add: move_file_def Let_def print_msg_def)
  next
    case None
    show ?thesis
    proof (cases "shutil_move fs' src ?d")
      case (Inl e)
      with False m None st show ?thesis by (simp add: move_file_def Let_def print_msg_def)
    next
      case (Inr fs'')
      with shutil_move_stable [OF Inr st(1) assms(2)] st False m None show ?thesis
        by (simp add: move_file_def Let_def print_msg_def)
    qed
  qed
qed

lemma organize_step_stable:
  assumes "exists_path (disk w) p" and "p \<noteq> q"
  shows "exists_path (disk (snd (organize_step host target dry_run overwrite verbose skip_hidden w q))) p \<and>
         is_dir (disk (snd (organize_step host target dry_run overwrite verbose skip_hidden w q))) p
           = is_dir (disk w) p"
  using assms move_file_stable [OF assms, of "desired_destination host target q" dry_run overwrite verbose]
  by (auto simp: organize_step_def print_msg_def)

lemma safe_destination_overwrite: "safe_destination fs dest True = dest"
  by (simp add: safe_destination_def)

lemma organize_loop_decisions:
  assumes "distinct ps"
    and "\<forall>p\<in>set ps. exists_path (disk w) p \<and> is_dir (disk w) p = is_dir fs0 p"
  shows "\<exists>ds. decided (snd (organize_loop host target dry_run overwrite verbose skip_hidden w ps))
                = decided w @ ds \<and>
           prefix (map fst ds) (filter (\<lambda>p. \<not> skipped fs0 target skip_hidden p) ps) \<and>
           (fst (organize_loop host target dry_run overwrite verbose skip_hidden w ps) = None \<longrightarrow>
              map fst ds = filter (\<lambda>p. \<not> skipped fs0 target skip_hidden p) ps) \<and>
           (overwrite \<longrightarrow> map snd ds = map (desired_destination host target) (map fst ds))"
  using assms
proof (induction ps arbitrary: w)
  case Nil
  show ?case by simp
next
  case (Cons q ps)
  from Cons.prems have dq: "q \<notin> set ps" and dps: "distinct ps"
    and jq: "is_dir (disk w) q = is_dir fs0 q"
    and jps: "\<forall>p\<in>set ps. exists_path (disk w) p \<and> is_dir (disk w) p = is_dir fs0 p"
    by simp_all
  obtain r w' where s: "organize_step host target dry_run overwrite verbose skip_hidden w q = (r, w')"
    by (cases "organize_step host target dry_run overwrite verbose skip_hidden w q")
  show ?case
  proof (cases "skipped fs0 target skip_hidden q")
    case True
    with jq have "is_dir (disk w) q \<or> (skip_hidden \<and> hidden q) \<or> already_organized target q"
      by (simp add: skipped_def)
    from organize_step_skip [OF this, of host dry_run overwrite verbose] s
    have a: "r = None" "disk w' = disk w" "decided w' = decided w" by simp_all
    with jps have "\<forall>p\<in>set ps. exists_path (disk w') p \<and> is_dir (disk w') p = is_dir fs0 p" by simp
    from Cons.IH [OF dps this] obtain ds where all:
      "decided (snd (organize_loop host target dry_run overwrite verbose skip_hidden w' ps))
         = decided w' @ ds \<and>
       prefix (map fst ds) (filter (\<lambda>p. \<not> skipped fs0 target skip_hidden p) ps) \<and>
       (fst (organize_loop host target dry_run overwrite verbose skip_hidden w' ps) = None \<longrightarrow>
         map fst ds = filter (\<lambda>p. \<not> skipped fs0 target skip_hidden p) ps) \<and>
       (overwrite \<longrightarrow> map snd ds = map (desired_destination host target) (map fst ds))"
      ..
    note ds = all [THEN conjunct1] all [THEN conjunct2, THEN conjunct1]
      all [THEN conjunct2, THEN conjunct2, THEN conjunct1]
      all [THEN conjunct2, THEN conjunct2, THEN conjunct2]
    from a s have R: "organize_loop host target dry_run overwrite verbose skip_hidden w (q # ps)
        = organize_loop host target dry_run overwrite verbose skip_hidden w' ps" by simp
    from True have F: "filter (\<lambda>p. \<not> skipped fs0 target skip_hidden p) (q # ps)
        = filter (\<lambda>p. \<not> skipped fs0 target skip_hidden p) ps" by simp
    have 1: "decided (snd (organize_loop host target dry_run overwrite verbose skip_hidden w (q # ps)))
        = decided w @ ds" using ds(1) a(3) by (simp only: R)
    have 2: "prefix (map fst ds) (filter (\<lambda>p. \<not> skipped fs0 target skip_hidden p) (q # ps))"
      using ds(2) by (simp only: F)
    have 3: "fst (organize_loop host target dry_run overwrite verbose skip_hidden w (q # ps)) = None
        \<longrightarrow> map fst ds = filter (\<lambda>p. \<not> skipped fs0 target skip_hidden p) (q # ps)"
      using ds(3) by (simp only: R F)
    from 1 2 3 ds(4) show ?thesis by (intro exI [of _ ds] conjI)
  next
    case False
    with jq have ns: "\<not> is_dir (disk w) q" "\<not> (skip_hidden \<and> hidden q)" "\<not> already_organized target q"
      by (simp_all add: skipped_def)
    let ?sd = "safe_destination (disk w) (desired_destination host target q) overwrite"
    from ns have "organize_step host target dry_run overwrite verbose skip_hidden w q =
        move_file w q (desired_destination host target q) dry_run overwrite verbose"
      by (auto simp: organize_step_def)
    with s have "w' = snd (move_file w q (desired_destination host target q) dry_run overwrite verbose)"
      by simp
    then have d: "decided w' = decided w @ [(q, ?sd)]" by (simp add: move_file_decided)
    have ow: "overwrite \<longrightarrow> ?sd = desired_destination host target q"
      by (simp add: safe_destination_overwrite)
    let ?F = "filter (\<lambda>p. \<not> skipped fs0 target skip_hidden p)"
    from False have F: "?F (q # ps) = q # ?F ps" by simp
    show ?thesis
    proof (cases r)
      case (Some e)
      with s have R: "organize_loop host target dry_run overwrite verbose skip_hidden w (q # ps)
          = (Some e, w')" by simp
      have 1: "decided (snd (organize_loop host target dry_run overwrite verbose skip_hidden w (q # ps)))
          = decided w @ [(q, ?sd)]" using R d by simp
      have 2: "prefix (map fst [(q, ?sd)]) (?F (q # ps))" unfolding F by simp
      have 3: "fst (organize_loop host target dry_run overwrite verbose skip_hidden w (q # ps)) = None
          \<longrightarrow> map fst [(q, ?sd)] = ?F (q # ps)" using R by simp
      have 4: "overwrite \<longrightarrow>
          map snd [(q, ?sd)] = map (desired_destination host target) (map fst [(q, ?sd)])"
        using ow by simp
      from 1 2 3 4 show ?thesis by (intro exI conjI)
    next
      case None
      have "\<forall>p\<in>set ps. exists_path (disk w') p \<and> is_dir (disk w') p = is_dir fs0 p"
      proof
        fix p assume p: "p \<in> set ps"
        with dq have "p \<noteq> q" by auto
        with jps p organize_step_stable [of w p q host target dry_run overwrite verbose skip_hidden] s
        show "exists_path (disk w') p \<and> is_dir (disk w') p = is_dir fs0 p" by simp
      qed
      from Cons.IH [OF dps this] obtain ds where all:
        "decided (snd (organize_loop host target dry_run overwrite verbose skip_hidden w' ps))
           = decided w' @ ds \<and>
         prefix (map fst ds) (?F ps) \<and>
         (fst (organize_loop host target dry_run overwrite verbose skip_hidden w' ps) = None \<longrightarrow>
           map fst ds = ?F ps) \<and>
         (overwrite \<longrightarrow> map snd ds = map (desired_destination host target) (map fst ds))"
        ..
      note ds = all [THEN conjunct1] all [THEN conjunct2, THEN conjunct1]
        all [THEN conjunct2, THEN conjunct2, THEN conjunct1]
        all [THEN conjunct2, THEN conjunct2, THEN conjunct2]
      from None s have R: "organize_loop host target dry_run overwrite verbose skip_hidden w (q # ps)
          = organize_loop host target dry_run overwrite verbose skip_hidden w' ps" by simp
      have 1: "decided (snd (organize_loop host target dry_run overwrite verbose skip_hidden w (q # ps)))
          = decided w @ ((q, ?sd) # ds)" using R d ds(1) by simp
      have 2: "prefix (map fst ((q, ?sd) # ds)) (?F (q # ps))" unfolding F using ds(2) by simp
      have 3: "fst (organize_loop host target dry_run overwrite verbose skip_hidden w (q # ps)) = None
          \<longrightarrow> map fst ((q, ?sd) # ds) = ?F (q # ps)" unfolding F using R ds(3) by simp
      have 4: "overwrite \<longrightarrow>
          map snd ((q, ?sd) # ds) = map (desired_destination host target) (map fst ((q, ?sd) # ds))"
        using ow ds(4) by simp
      from 1 2 3 4 show ?thesis by (intro exI conjI)
    qed
  qed
qed

lemma decisions_of_sources:
  "map snd ds = map f (map fst ds) \<Longrightarrow> map (\<lambda>p. (p, f p)) (map fst ds) = ds"
  by (induction ds) auto

lemma organize_directory_decisions:
  assumes "distinct (map fst fs)"
  shows "prefix (map fst (decided (snd (organize_directory host fs target recursive dry_run overwrite verbose skip_hidden))))
           (filter (\<lambda>p. \<not> skipped fs target skip_hidden p)
              (if recursive then rglob fs target else iterdir fs target)) \<and>
         (fst (organize_directory host fs target recursive dry_run overwrite verbose skip_hidden) = None \<longrightarrow>
            map fst (decided (snd (organize_directory host fs target recursive dry_run overwrite verbose skip_hidden)))
              = filter (\<lambda>p. \<not> skipped fs target skip_hidden p)
                  (if recursive then rglob fs target else iterdir fs target)) \<and>
         (overwrite \<longrightarrow>
            map snd (decided (snd (organize_directory host fs target recursive dry_run overwrite verbose skip_hidden)))
              = map (desired_destination host target)
                  (map fst (decided (snd (organize_directory host fs target recursive dry_run overwrite verbose skip_hidden)))))"
proof (cases "\<not> exists_path fs target \<or> \<not> is_dir fs target")
  case True
  then have "organize_directory host fs target recursive dry_run overwrite verbose skip_hidden
      = (Some ValueError, \<lparr>disk = fs, printed = [], decided = []\<rparr>)"
    by (auto simp: organize_directory_def Let_def)
  then have a: "decided (snd (organize_directory host fs target recursive dry_run overwrite verbose skip_hidden)) = []"
    "fst (organize_directory host fs target recursive dry_run overwrite verbose skip_hidden) = Some ValueError"
    by simp_all
  show ?thesis unfolding a by simp
next
  case False
  let ?ps = "if recursive then rglob fs target else iterdir fs target"
  let ?w = "\<lparr>disk = fs, printed = [], decided = []\<rparr>"
  from False have R: "organize_directory host fs target recursive dry_run overwrite verbose skip_hidden
      = organize_loop host target dry_run overwrite verbose skip_hidden ?w ?ps"
    by (auto simp: organize_directory_def Let_def)
  from assms have d: "distinct ?ps" by (simp add: rglob_def iterdir_def)
  have "\<forall>p\<in>set ?ps. exists_path (disk ?w) p \<and> is_dir (disk ?w) p = is_dir fs p"
    by (auto simp: rglob_def iterdir_def exists_path_def)
  from organize_loop_decisions [OF d this, of host target dry_run overwrite verbose skip_hidden]
  show ?thesis unfolding R by auto
qed

text \<open>Conflict resolution changes the name only: the folder of a decision is the desired one.\<close>

lemma parent_candidate: "parent (candidate dest i) = parent dest"
  by (simp add: candidate_form parent_def)

lemma parent_safe_destination: "parent (safe_destination fs dest overwrite) = parent dest"
proof (cases "overwrite \<or> \<not> exists_path fs dest")
  case True
  then show ?thesis by (auto simp: safe_destination_def)
next
  case False
  then have "safe_destination fs dest overwrite = safe_destination_loop fs dest 1"
    by (simp add: safe_destination_def)
  with safe_destination_loop_first [of 1 fs dest] show ?thesis
    by (auto simp: parent_candidate)
qed

lemma organize_step_decided_cases:
  "decided (snd (organize_step host target dry_run overwrite verbose skip_hidden w p)) = decided w \<or>
   decided (snd (organize_step host target dry_run overwrite verbose skip_hidden w p)) =
     decided w @ [(p, safe_destination (disk w) (desired_destination host target p) overwrite)]"
  by (simp add: organize_step_def print_msg_def move_file_decided)

lemma organize_loop_folders:
  assumes "map (\<lambda>d. parent (snd d)) (decided w)
             = map (\<lambda>s. parent (desired_destination host target s)) (map fst (decided w))"
  shows "map (\<lambda>d. parent (snd d))
             (decided (snd (organize_loop host target dry_run overwrite verbose skip_hidden w ps)))
           = map (\<lambda>s. parent (desired_destination host target s))
               (map fst (decided (snd (organize_loop host target dry_run overwrite verbose skip_hidden w ps))))"
  using assms
proof (induction ps arbitrary: w)
  case Nil
  then show ?case by simp
next
  case (Cons q ps)
  obtain r w' where s: "organize_step host target dry_run overwrite verbose skip_hidden w q = (r, w')"
    by (cases "organize_step host target dry_run overwrite verbose skip_hidden w q")
  from organize_step_decided_cases [of host target dry_run overwrite verbose skip_hidden w q] s
  have "decided w' = decided w \<or>
        decided w' = decided w @ [(q, safe_destination (disk w) (desired_destination host target q) overwrite)]"
    by simp
  with Cons.prems have w': "map (\<lambda>d. parent (snd d)) (decided w')
             = map (\<lambda>s. parent (desired_destination host target s)) (map fst (decided w'))"
    by (auto simp: parent_safe_destination)
  show ?case
  proof (cases r)
    case (Some e)
    with s w' show ?thesis by simp
  next
    case None
    with s Cons.IH [OF w'] show ?thesis by simp
  qed
qed

lemma folders_of_sources:
  "map (\<lambda>d. parent (snd d)) ds = map f (map fst ds)
     \<Longrightarrow> map (\<lambda>s. (s, f s)) (map fst ds) = map (\<lambda>d. (fst d, parent (snd d))) ds"
  by (induction ds) auto

lemma organize_directory_folders:
  "map (\<lambda>s. (s, parent (desired_destination host target s)))
     (map fst (decided (snd (organize_directory host fs target recursive dry_run overwrite verbose skip_hidden))))
   = map (\<lambda>d. (fst d, parent (snd d)))
       (decided (snd (organize_directory host fs target recursive dry_run overwrite verbose skip_hidden)))"
proof -
  have "map (\<lambda>d. parent (snd d))
          (decided (snd (organize_directory host fs target recursive dry_run overwrite verbose skip_hidden)))
        = map (\<lambda>s. parent (desired_destination host target s))
            (map fst (decided (snd (organize_directory host fs target recursive dry_run overwrite verbose skip_hidden))))"
    using organize_loop_folders [of "\<lparr>disk = fs, printed = [], decided = []\<rparr>" host target
        dry_run overwrite verbose skip_hidden "if recursive then rglob fs target else iterdir fs target"]
    by (simp add: organize_directory_def Let_def)
  then show ?thesis by (rule folders_of_sources)
qed

text \<open>
  Claim C6, as stated, fails: over two folders that each hold \<^verbatim>\<open>x.txt\<close>, the dry run decides
  the same destination twice, while the live pass, having moved the first file there,
  resolves the second to \<^verbatim>\<open>x (1).txt\<close>.
\<close>

theorem dry_run_decisions_counterexample:
  "wf_fs fs_two_dirs \<and>
   decided (snd (organize_directory host_none fs_two_dirs [''r''] True True False True True)) =
     [([''r'', ''a'', ''x.txt''], [''r'', ''Documents'', ''txt'', ''x.txt'']),
      ([''r'', ''b'', ''x.txt''], [''r'', ''Documents'', ''txt'', ''x.txt''])] \<and>
   decided (snd (organize_directory host_none fs_two_dirs [''r''] True False False True True)) =
     [([''r'', ''a'', ''x.txt''], [''r'', ''Documents'', ''txt'', ''x.txt'']),
      ([''r'', ''b'', ''x.txt''], [''r'', ''Documents'', ''txt'', ''x (1).txt''])] \<and>
   decided (snd (organize_directory host_none fs_two_dirs [''r''] True True False True True)) \<noteq>
   decided (snd (organize_directory host_none fs_two_dirs [''r''] True False False True True))"
  by code_simp

text \<open>
  Claim C6, amended. From the same file system and with the same parameters, the loop
  body decides the same source and resolved destination for a path in a dry run as in a
  live pass, and in a dry run it leaves the file system as it was. Over whole passes
  from the same file system, the first decisions agree. When the file system holds one
  entry for a path, the live pass decides for the same sources in the same order as the
  dry run, as far as it gets, and for all of them when it ends without an exception; the
  folders of the resolved destinations agree likewise; and with \<open>overwrite\<close> so do the
  decisions themselves, source and destination. (Without \<open>overwrite\<close> the names that the
  conflict resolution gives to later destinations need not agree: a live move changes the
  file system that they are resolved against.)
\<close>

theorem dry_run_same_decision:
  "decided (snd (organize_step host target True overwrite verbose skip_hidden w p)) =
     decided (snd (organize_step host target False overwrite verbose skip_hidden w p)) \<and>
   disk (snd (organize_step host target True overwrite verbose skip_hidden w p)) = disk w \<and>
   take 1 (decided (snd (organize_directory host fs target recursive True overwrite verbose skip_hidden))) =
     take 1 (decided (snd (organize_directory host fs target recursive False overwrite verbose skip_hidden))) \<and>
   (distinct (map fst fs) \<longrightarrow>
      prefix (map fst (decided (snd (organize_directory host fs target recursive False overwrite verbose skip_hidden))))
             (map fst (decided (snd (organize_directory host fs target recursive True overwrite verbose skip_hidden)))) \<and>
      (fst (organize_directory host fs target recursive False overwrite verbose skip_hidden) = None \<longrightarrow>
         map fst (decided (snd (organize_directory host fs target recursive False overwrite verbose skip_hidden)))
           = map fst (decided (snd (organize_directory host fs target recursive True overwrite verbose skip_hidden))))) \<and>
   (distinct (map fst fs) \<longrightarrow>
      prefix (map (\<lambda>d. (fst d, parent (snd d)))
                (decided (snd (organize_directory host fs target recursive False overwrite verbose skip_hidden))))
             (map (\<lambda>d. (fst d, parent (snd d)))
                (decided (snd (organize_directory host fs target recursive True overwrite verbose skip_hidden)))) \<and>
      (fst (organize_directory host fs target recursive False overwrite verbose skip_hidden) = None \<longrightarrow>
         map (\<lambda>d. (fst d, parent (snd d)))
           (decided (snd (organize_directory host fs target recursive False overwrite verbose skip_hidden)))
         = map (\<lambda>d. (fst d, parent (snd d)))
             (decided (snd (organize_directory host fs target recursive True overwrite verbose skip_hidden))))) \<and>
   (distinct (map fst fs) \<longrightarrow>
      prefix (decided (snd (organize_directory host fs target recursive False True verbose skip_hidden)))
             (decided (snd (organize_directory host fs target recursive True True verbose skip_hidden))) \<and>
      (fst (organize_directory host fs target recursive False True verbose skip_hidden) = None \<longrightarrow>
         decided (snd (organize_directory host fs target recursive False True verbose skip_hidden))
           = decided (snd (organize_directory host fs target recursive True True verbose skip_hidden))))"
proof -
  let ?F = "filter (\<lambda>p. \<not> skipped fs target skip_hidden p)
              (if recursive then rglob fs target else iterdir fs target)"
  let ?run = "\<lambda>dry ow. organize_directory host fs target recursive dry ow verbose skip_hidden"
  have 1: "decided (snd (organize_step host target True overwrite verbose skip_hidden w p)) =
     decided (snd (organize_step host target False overwrite verbose skip_hidden w p))"
    by (rule organize_step_same_decision)
  have 2: "disk (snd (organize_step host target True overwrite verbose skip_hidden w p)) = disk w"
    by (simp add: organize_step_def move_file_dry_run print_msg_def)
  have 3: "take 1 (decided (snd (?run True overwrite))) = take 1 (decided (snd (?run False overwrite)))"
    using organize_loop_first_decision [of "\<lparr>disk = fs, printed = [], decided = []\<rparr>"
        "\<lparr>disk = fs, printed = [], decided = []\<rparr>" host target overwrite verbose skip_hidden
        "if recursive then rglob fs target else iterdir fs target"]
    by (simp add: organize_directory_def Let_def)
  have src: "prefix (map fst (decided (snd (?run False ow)))) (map fst (decided (snd (?run True ow)))) \<and>
      (fst (?run False ow) = None \<longrightarrow>
         map fst (decided (snd (?run False ow))) = map fst (decided (snd (?run True ow))))"
    if dist: "distinct (map fst fs)" for ow
  proof (cases "\<not> exists_path fs target \<or> \<not> is_dir fs target")
    case True
    then have "?run False ow = (Some ValueError, \<lparr>disk = fs, printed = [], decided = []\<rparr>)"
      by (auto simp: organize_directory_def Let_def)
    then show ?thesis by simp
  next
    case False
    then have "fst (?run True ow) = None"
      using organize_loop_dry_run [of host target ow verbose skip_hidden
          "\<lparr>disk = fs, printed = [], decided = []\<rparr>"
          "if recursive then rglob fs target else iterdir fs target"]
      by (auto simp: organize_directory_def Let_def)
    with organize_directory_decisions [OF dist, of host target recursive True ow verbose skip_hidden]
    have dry: "map fst (decided (snd (?run True ow))) = ?F" by blast
    from organize_directory_decisions [OF dist, of host target recursive False ow verbose skip_hidden]
    have "prefix (map fst (decided (snd (?run False ow)))) ?F"
      and "fst (?run False ow) = None \<longrightarrow> map fst (decided (snd (?run False ow))) = ?F"
      by blast+
    then show ?thesis unfolding dry by blast
  qed
  have 4: "distinct (map fst fs) \<longrightarrow>
      prefix (map fst (decided (snd (?run False overwrite)))) (map fst (decided (snd (?run True overwrite)))) \<and>
      (fst (?run False overwrite) = None \<longrightarrow>
         map fst (decided (snd (?run False overwrite))) = map fst (decided (snd (?run True overwrite))))"
    using src [of overwrite] by blast
  have 5: "distinct (map fst fs) \<longrightarrow>
      prefix (decided (snd (?run False True))) (decided (snd (?run True True))) \<and>
      (fst (?run False True) = None \<longrightarrow>
         decided (snd (?run False True)) = decided (snd (?run True True)))"
  proof
    assume dist: "distinct (map fst fs)"
    let ?g = "\<lambda>p. (p, desired_destination host target p)"
    from organize_directory_decisions [OF dist, of host target recursive False True verbose skip_hidden]
    have "map snd (decided (snd (?run False True)))
        = map (desired_destination host target) (map fst (decided (snd (?run False True))))" by blast
    then have l: "map ?g (map fst (decided (snd (?run False True)))) = decided (snd (?run False True))"
      by (rule decisions_of_sources)
    from organize_directory_decisions [OF dist, of host target recursive True True verbose skip_hidden]
    have "map snd (decided (snd (?run True True)))
        = map (desired_destination host target) (map fst (decided (snd (?run True True))))" by blast
    then have d: "map ?g (map fst (decided (snd (?run True True)))) = decided (snd (?run True True))"
      by (rule decisions_of_sources)
    from src [OF dist, of True]
    have p: "prefix (map fst (decided (snd (?run False True)))) (map fst (decided (snd (?run True True))))"
      and e: "fst (?run False True) = None \<longrightarrow>
         map fst (decided (snd (?run False True))) = map fst (decided (snd (?run True True)))"
      by blast+
    from p have "prefix (map ?g (map fst (decided (snd (?run False True)))))
        (map ?g (map fst (decided (snd (?run True True)))))" by (rule map_mono_prefix)
    then have p': "prefix (decided (snd (?run False True))) (decided (snd (?run True True)))"
      unfolding l d .
    have e': "fst (?run False True) = None \<longrightarrow>
         decided (snd (?run False True)) = decided (snd (?run True True))"
    proof
      assume "fst (?run False True) = None"
      with e have "map ?g (map fst (decided (snd (?run False True))))
          = map ?g (map fst (decided (snd (?run True True))))" by simp
      then show "decided (snd (?run False True)) = decided (snd (?run True True))"
        unfolding l d .
    qed
    from p' e' show "prefix (decided (snd (?run False True))) (decided (snd (?run True True))) \<and>
      (fst (?run False True) = None \<longrightarrow>
         decided (snd (?run False True)) = decided (snd (?run True True)))" by (rule conjI)
  qed
  have 6: "distinct (map fst fs) \<longrightarrow>
      prefix (map (\<lambda>d. (fst d, parent (snd d))) (decided (snd (?run False overwrite))))
             (map (\<lambda>d. (fst d, parent (snd d))) (decided (snd (?run True overwrite)))) \<and>
      (fst (?run False overwrite) = None \<longrightarrow>
         map (\<lambda>d. (fst d, parent (snd d))) (decided (snd (?run False overwrite)))
         = map (\<lambda>d. (fst d, parent (snd d))) (decided (snd (?run True overwrite))))"
  proof
    assume dist: "distinct (map fst fs)"
    let ?h = "\<lambda>s. (s, parent (desired_destination host target s))"
    note l = organize_directory_folders [of host target fs recursive False overwrite verbose skip_hidden]
    note d = organize_directory_folders [of host target fs recursive True overwrite verbose skip_hidden]
    from src [OF dist, of overwrite]
    have p: "prefix (map fst (decided (snd (?run False overwrite))))
        (map fst (decided (snd (?run True overwrite))))"
      and e: "fst (?run False overwrite) = None \<longrightarrow>
         map fst (decided (snd (?run False overwrite))) = map fst (decided (snd (?run True overwrite)))"
      by blast+
    from p have "prefix (map ?h (map fst (decided (snd (?run False overwrite)))))
        (map ?h (map fst (decided (snd (?run True overwrite)))))" by (rule map_mono_prefix)
    then have p': "prefix (map (\<lambda>d. (fst d, parent (snd d))) (decided (snd (?run False overwrite))))
        (map (\<lambda>d. (fst d, parent (snd d))) (decided (snd (?run True overwrite))))"
      unfolding l d .
    have e': "fst (?run False overwrite) = None \<longrightarrow>
         map (\<lambda>d. (fst d, parent (snd d))) (decided (snd (?run False overwrite)))
         = map (\<lambda>d. (fst d, parent (snd d))) (decided (snd (?run True overwrite)))"
    proof
      assume "fst (?run False overwrite) = None"
      with e have "map ?h (map fst (decided (snd (?run False overwrite))))
          = map ?h (map fst (decided (snd (?run True overwrite))))" by simp
      then show "map (\<lambda>d. (fst d, parent (snd d))) (decided (snd (?run False overwrite)))
         = map (\<lambda>d. (fst d, parent (snd d))) (decided (snd (?run True overwrite)))"
        unfolding l d .
    qed
    from p' e' show "prefix (map (\<lambda>d. (fst d, parent (snd d))) (decided (snd (?run False overwrite))))
             (map (\<lambda>d. (fst d, parent (snd d))) (decided (snd (?run True overwrite)))) \<and>
      (fst (?run False overwrite) = None \<longrightarrow>
         map (\<lambda>d. (fst d, parent (snd d))) (decided (snd (?run False overwrite)))
         = map (\<lambda>d. (fst d, parent (snd d))) (decided (snd (?run True overwrite))))" by (rule conjI)
  qed
  from 1 2 3 4 6 5 show ?thesis by (intro conjI)
qed

text \<open>
  An instance: both passes over the two folders decide for \<^verbatim>\<open>a/x.txt\<close> and \<^verbatim>\<open>b/x.txt\<close> in this
  order and alike for the first; with \<open>overwrite\<close> the live pass decides as the dry run does,
  \<^verbatim>\<open>Documents/txt/x.txt\<close> twice.
\<close>

theorem dry_run_same_decision_witness:
  "distinct (map fst fs_two_dirs) \<and>
   fst (organize_directory host_none fs_two_dirs [''r''] True False False True True) = None \<and>
   map fst (decided (snd (organize_directory host_none fs_two_dirs [''r''] True False False True True)))
     = [[''r'', ''a'', ''x.txt''], [''r'', ''b'', ''x.txt'']] \<and>
   map fst (decided (snd (organize_directory host_none fs_two_dirs [''r''] True True False True True)))
     = [[''r'', ''a'', ''x.txt''], [''r'', ''b'', ''x.txt'']] \<and>
   take 1 (decided (snd (organize_directory host_none fs_two_dirs [''r''] True False False True True))) =
     [([''r'', ''a'', ''x.txt''], [''r'', ''Documents'', ''txt'', ''x.txt''])] \<and>
   map (\<lambda>d. (fst d, parent (snd d)))
     (decided (snd (organize_directory host_none fs_two_dirs [''r''] True False False True True))) =
     [([''r'', ''a'', ''x.txt''], [''r'', ''Documents'', ''txt'']),
      ([''r'', ''b'', ''x.txt''], [''r'', ''Documents'', ''txt''])] \<and>
   fst (organize_directory host_none fs_two_dirs [''r''] True False True True True) = None \<and>
   decided (snd (organize_directory host_none fs_two_dirs [''r''] True False True True True)) =
     [([''r'', ''a'', ''x.txt''], [''r'', ''Documents'', ''txt'', ''x.txt'']),
      ([''r'', ''b'', ''x.txt''], [''r'', ''Documents'', ''txt'', ''x.txt''])]"
proof -
  have d: "distinct (map fst fs_two_dirs)" by code_simp
  have n: "fst (organize_directory host_none fs_two_dirs [''r''] True False False True True) = None"
    by code_simp
  have no: "fst (organize_directory host_none fs_two_dirs [''r''] True False True True True) = None"
    by code_simp
  have dry: "decided (snd (organize_directory host_none fs_two_dirs [''r''] True True False True True)) =
     [([''r'', ''a'', ''x.txt''], [''r'', ''Documents'', ''txt'', ''x.txt'']),
      ([''r'', ''b'', ''x.txt''], [''r'', ''Documents'', ''txt'', ''x.txt''])]" by code_simp
  have dryo: "decided (snd (organize_directory host_none fs_two_dirs [''r''] True True True True True)) =
     [([''r'', ''a'', ''x.txt''], [''r'', ''Documents'', ''txt'', ''x.txt'']),
      ([''r'', ''b'', ''x.txt''], [''r'', ''Documents'', ''txt'', ''x.txt''])]" by code_simp
  note t = dry_run_same_decision [of host_none "[''r'']" False True True _ _ fs_two_dirs True]
  from t d n have s: "map fst (decided (snd (organize_directory host_none fs_two_dirs [''r''] True False False True True)))
     = map fst (decided (snd (organize_directory host_none fs_two_dirs [''r''] True True False True True)))"
    by blast
  from t have k: "take 1 (decided (snd (organize_directory host_none fs_two_dirs [''r''] True True False True True))) =
     take 1 (decided (snd (organize_directory host_none fs_two_dirs [''r''] True False False True True)))"
    by blast
  from t d no have o: "decided (snd (organize_directory host_none fs_two_dirs [''r''] True False True True True))
     = decided (snd (organize_directory host_none fs_two_dirs [''r''] True True True True True))"
    by blast
  from t d n have f: "map (\<lambda>d. (fst d, parent (snd d)))
       (decided (snd (organize_directory host_none fs_two_dirs [''r''] True False False True True)))
     = map (\<lambda>d. (fst d, parent (snd d)))
       (decided (snd (organize_directory host_none fs_two_dirs [''r''] True True False True True)))"
    by blast
  have pf: "map (\<lambda>d. (fst d, parent (snd d)))
       [([''r'', ''a'', ''x.txt''], [''r'', ''Documents'', ''txt'', ''x.txt'']),
        ([''r'', ''b'', ''x.txt''], [''r'', ''Documents'', ''txt'', ''x.txt''])]
     = [([''r'', ''a'', ''x.txt''], [''r'', ''Documents'', ''txt'']),
        ([''r'', ''b'', ''x.txt''], [''r'', ''Documents'', ''txt''])]"
    by (simp add: parent_def)
  from d n no s k o f pf dry dryo show ?thesis by simp
qed

text \<open>
  Claim C8 says that a failure while a single file is relocated, the preparation of its
  move included, is caught and does not end the pass. The source creates the destination
  folder at line 120, before the \<^verbatim>\<open>try\<close> of line 121. Here the target holds a regular file
  \<^verbatim>\<open>Others\<close> and a file \<^verbatim>\<open>a.jpg\<close>: the folder \<^verbatim>\<open>Others/no_ext\<close> cannot be created below a regular
  file, the error leaves \<^verbatim>\<open>organize_directory\<close>, and \<^verbatim>\<open>a.jpg\<close> is never looked at.
\<close>

theorem mkdir_error_aborts_pass:
  "wf_fs fs_others \<and>
   organize_directory host_none fs_others [''r''] False False False True True =
     (Some NotADirectoryError,
      \<lparr>disk = fs_others,
       printed = [Moving [''r'', ''Others''] [''r'', ''Others'', ''no_ext'', ''Others'']],
       decided = [([''r'', ''Others''], [''r'', ''Others'', ''no_ext'', ''Others''])]\<rparr>)"
  by code_simp

text \<open>The pass ended with the error, and no decision was made for \<^verbatim>\<open>a.jpg\<close>.\<close>

theorem mkdir_error_aborts_pass_witness:
  "fst (organize_directory host_none fs_others [''r''] False False False True True)
     = Some NotADirectoryError \<and>
   [''r'', ''a.jpg'']
     \<notin> fst ` set (decided (snd (organize_directory host_none fs_others [''r''] False False False True True)))"
  using mkdir_error_aborts_pass by simp

subsection \<open>Further properties\<close>

text \<open>
  An error of \<^verbatim>\<open>shutil.move\<close> is caught (lines 121 to 124): no exception leaves
  \<^verbatim>\<open>move_file\<close>, the error is the last line printed, and the file system is the one that
  the creation of the destination folder left, which holds every entry it held before.
\<close>

theorem move_error_is_caught:
  assumes "mkdir_parents (disk w) (parent (safe_destination (disk w) dest overwrite)) = (None, fs')"
    and "shutil_move fs' src (safe_destination (disk w) dest overwrite) = Inl e"
  shows "fst (move_file w src dest False overwrite verbose) = None \<and>
         disk (snd (move_file w src dest False overwrite verbose)) = fs' \<and>
         set (disk w) \<subseteq> set fs' \<and>
         last (printed (snd (move_file w src dest False overwrite verbose)))
           = ErrorMoving src (safe_destination (disk w) dest overwrite) e"
  using assms mkdir_parents_keeps [of "disk w" "parent (safe_destination (disk w) dest overwrite)"]
  by (simp add: move_file_def Let_def print_msg_def)

text \<open>
  An instance: with \<open>overwrite\<close>, the destination of \<^verbatim>\<open>a.jpg\<close> is a directory that holds an
  \<^verbatim>\<open>a.jpg\<close> already; the error is printed, \<^verbatim>\<open>a.jpg\<close> stays, and the pass goes on to move
  \<^verbatim>\<open>b.png\<close>.
\<close>

theorem move_error_is_caught_witness:
  "wf_fs fs_dir_at_dest \<and>
   organize_directory host_none fs_dir_at_dest [''r''] False False True False True =
     (None,
      \<lparr>disk = [([], Dir), ([''r''], Dir), ([''r'', ''a.jpg''], File),
               ([''r'', ''Images''], Dir), ([''r'', ''Images'', ''jpg''], Dir),
               ([''r'', ''Images'', ''jpg'', ''a.jpg''], Dir),
               ([''r'', ''Images'', ''jpg'', ''a.jpg'', ''a.jpg''], File),
               ([''r'', ''Images'', ''png''], Dir),
               ([''r'', ''Images'', ''png'', ''b.png''], File)],
       printed = [ErrorMoving [''r'', ''a.jpg''] [''r'', ''Images'', ''jpg'', ''a.jpg''] ShutilError],
       decided = [([''r'', ''a.jpg''], [''r'', ''Images'', ''jpg'', ''a.jpg'']),
                  ([''r'', ''b.png''], [''r'', ''Images'', ''png'', ''b.png''])]\<rparr>) \<and>
   fst (move_file \<lparr>disk = fs_dir_at_dest, printed = [], decided = []\<rparr> [''r'', ''a.jpg'']
          [''r'', ''Images'', ''jpg'', ''a.jpg''] False True False) = None"
proof -
  let ?w = "\<lparr>disk = fs_dir_at_dest, printed = [], decided = []\<rparr>"
  let ?d = "[''r'', ''Images'', ''jpg'', ''a.jpg'']"
  have m: "mkdir_parents (disk ?w) (parent (safe_destination (disk ?w) ?d True)) = (None, fs_dir_at_dest)"
    by code_simp
  have s: "shutil_move fs_dir_at_dest [''r'', ''a.jpg''] (safe_destination (disk ?w) ?d True) = Inl ShutilError"
    by code_simp
  have r: "wf_fs fs_dir_at_dest \<and>
   organize_directory host_none fs_dir_at_dest [''r''] False False True False True =
     (None,
      \<lparr>disk = [([], Dir), ([''r''], Dir), ([''r'', ''a.jpg''], File),
               ([''r'', ''Images''], Dir), ([''r'', ''Images'', ''jpg''], Dir),
               ([''r'', ''Images'', ''jpg'', ''a.jpg''], Dir),
               ([''r'', ''Images'', ''jpg'', ''a.jpg'', ''a.jpg''], File),
               ([''r'', ''Images'', ''png''], Dir),
               ([''r'', ''Images'', ''png'', ''b.png''], File)],
       printed = [ErrorMoving [''r'', ''a.jpg''] [''r'', ''Images'', ''jpg'', ''a.jpg''] ShutilError],
       decided = [([''r'', ''a.jpg''], [''r'', ''Images'', ''jpg'', ''a.jpg'']),
                  ([''r'', ''b.png''], [''r'', ''Images'', ''png'', ''b.png''])]\<rparr>)"
    by code_simp
  from move_error_is_caught [OF m s, of False] r show ?thesis by simp
qed

text \<open>
  A target that does not exist or is not a directory ends the pass with \<^verbatim>\<open>ValueError\<close>
  before anything is enumerated, printed or changed (lines 128 and 129).
\<close>

theorem invalid_target_aborts_first:
  assumes "\<not> exists_path fs target \<or> \<not> is_dir fs target"
  shows "organize_directory host fs target recursive dry_run overwrite verbose skip_hidden =
           (Some ValueError, \<lparr>disk = fs, printed = [], decided = []\<rparr>)"
  using assms by (auto simp: organize_directory_def Let_def)

text \<open>An instance: a regular file as target.\<close>

theorem invalid_target_aborts_first_witness:
  "\<not> is_dir fs_hidden [''r'', ''a.jpg''] \<and>
   organize_directory host_none fs_hidden [''r'', ''a.jpg''] True False False True True =
     (Some ValueError, \<lparr>disk = fs_hidden, printed = [], decided = []\<rparr>)"
proof -
  have n: "\<not> is_dir fs_hidden [''r'', ''a.jpg'']" by code_simp
  then have "\<not> exists_path fs_hidden [''r'', ''a.jpg''] \<or> \<not> is_dir fs_hidden [''r'', ''a.jpg'']"
    by simp
  from invalid_target_aborts_first [OF this, of host_none True False False True True] n
  show ?thesis by simp
qed

lemma table_values_fixed:
  "map_of EXTENSION_CATEGORIES e = Some c \<Longrightarrow>
     c \<in> {''Images'', ''Videos'', ''Audio'', ''Documents'', ''Archives'', ''Code'', ''Others''}"
  by (auto simp: EXTENSION_CATEGORIES_def split: if_splits)

lemma guess_category_by_mime_fixed:
  "guess_category_by_mime host p
     \<in> {''Images'', ''Videos'', ''Audio'', ''Documents'', ''Archives'', ''Code'', ''Others''}"
  by (simp add: guess_category_by_mime_def split: option.splits)

lemma get_category_fixed:
  "fst (get_category host p)
     \<in> {''Images'', ''Videos'', ''Audio'', ''Documents'', ''Archives'', ''Code'', ''Others''} \<and>
   snd (get_category host p) \<noteq> []"
proof (cases "extension host p = []")
  case True
  with guess_category_by_mime_fixed [of host p] show ?thesis
    by (simp add: get_category_def Let_def)
next
  case False
  show ?thesis
  proof (cases "map_of EXTENSION_CATEGORIES (extension host p)")
    case None
    with False guess_category_by_mime_fixed [of host p] show ?thesis
      by (auto simp: get_category_def Let_def by_mime_with_ext_def or_unknown_def)
  next
    case (Some c)
    with table_keys_values [OF Some] table_values_fixed [OF Some] False show ?thesis
      by (simp add: get_category_def Let_def)
  qed
qed

text \<open>
  The category of a path is always one of the seven names and its sub-folder is never
  empty; so the destination built for a named path is the target followed by category,
  sub-folder and name, and it passes the test of line 157: what a pass has moved, a later
  pass over the same target skips.
\<close>

theorem destination_is_organized:
  assumes "name p \<noteq> []"
  shows "fst (get_category host p)
           \<in> {''Images'', ''Videos'', ''Audio'', ''Documents'', ''Archives'', ''Code'', ''Others''} \<and>
         snd (get_category host p) \<noteq> [] \<and>
         desired_destination host target p
           = target @ [fst (get_category host p), snd (get_category host p), name p] \<and>
         already_organized target (desired_destination host target p)"
proof -
  note g = get_category_fixed [of host p]
  then have ne: "fst (get_category host p) \<noteq> []" by auto
  obtain c e where ce: "get_category host p = (c, e)" by (cases "get_category host p")
  with g ne assms have d: "desired_destination host target p
           = target @ [fst (get_category host p), snd (get_category host p), name p]"
    by (simp add: desired_destination_def joinpath_def)
  from g have "fst (get_category host p) \<in> category_names"
    by (intro category_names_fixed) simp
  from already_organized_inside [OF this, of "[snd (get_category host p), name p]" target] d
  have "already_organized target (desired_destination host target p)" by simp
  with g d show ?thesis by simp
qed

text \<open>An instance: the destination of \<^verbatim>\<open>r/a.jpg\<close>.\<close>

theorem destination_is_organized_witness:
  "name [''r'', ''a.jpg''] \<noteq> [] \<and>
   desired_destination host_none [''r''] [''r'', ''a.jpg''] = [''r'', ''Images'', ''jpg'', ''a.jpg''] \<and>
   already_organized [''r''] (desired_destination host_none [''r''] [''r'', ''a.jpg''])"
proof -
  have n: "name [''r'', ''a.jpg''] \<noteq> []" by code_simp
  have d: "desired_destination host_none [''r''] [''r'', ''a.jpg''] = [''r'', ''Images'', ''jpg'', ''a.jpg'']"
    by code_simp
  from destination_is_organized [OF n, of host_none "[''r'']"]
  have "already_organized [''r''] (desired_destination host_none [''r''] [''r'', ''a.jpg''])"
    by blast
  with n d show ?thesis by simp
qed

text \<open>
  For an extension that the table does not hold, the category is the one inferred from
  the content type, and the sub-folder is the extension (lines 86 to 90).
\<close>

theorem get_category_inferred:
  assumes "extension host p \<noteq> []"
    and "map_of EXTENSION_CATEGORIES (extension host p) = None"
  shows "get_category host p = (guess_category_by_mime host p, extension host p)"
  using assms by (simp add: get_category_def Let_def by_mime_with_ext_def or_unknown_def)

text \<open>An instance: \<^verbatim>\<open>scan.xyz123\<close>, inferred as an image, goes to \<^verbatim>\<open>Images/xyz123\<close>.\<close>

theorem get_category_inferred_witness:
  "extension host_image [''r'', ''scan.xyz123''] \<noteq> [] \<and>
   map_of EXTENSION_CATEGORIES (extension host_image [''r'', ''scan.xyz123'']) = None \<and>
   get_category host_image [''r'', ''scan.xyz123''] = (''Images'', ''xyz123'')"
proof -
  have a: "extension host_image [''r'', ''scan.xyz123''] \<noteq> []" by code_simp
  have b: "map_of EXTENSION_CATEGORIES (extension host_image [''r'', ''scan.xyz123'']) = None" by code_simp
  have c: "(guess_category_by_mime host_image [''r'', ''scan.xyz123''], extension host_image [''r'', ''scan.xyz123''])
      = (''Images'', ''xyz123'')" by code_simp
  from get_category_inferred [OF a b] a b c show ?thesis by simp
qed

end
